theory Spec2Isabelle
  imports Complex_Main
begin

section \<open>The downtime leaderboard page\<close>

text \<open>
  The page module declares two interfaces, \<open>Validator\<close> and \<open>ApiResponse\<close>, a retrieval
  function \<open>getData\<close>, a formatting helper \<open>formatDowntime\<close> and the page component
  \<open>Home\<close>.
\<close>

subsection \<open>Numbers\<close>

text \<open>
  A \<open>number\<close> of the language is a binary64 value: a finite value, \<open>NaN\<close> or one of the two
  infinities. A finite value is kept as the rational it denotes; the values that occur are
  the representable ones, \<open>is_double\<close> below. The language has two zeros; they are one
  value here, since the two operations that \<open>formatDowntime\<close> applies to a result, the
  comparison with \<open>0\<close> and the conversion to a string, treat them alike.

  \<open>Math.floor\<close> and \<open>Math.round\<close> give integral numbers: the same four kinds of value,
  the finite ones integers.
\<close>

datatype 'a ext = Finite 'a | NaN | PosInfinity | NegInfinity

type_synonym number = "rat ext"

type_synonym integral = "int ext"

text \<open>
  Rounding a real to binary64, to nearest, a tie going to the even significand. The
  exponent of a non-zero \<open>q\<close> is the \<open>e\<close> with \<open>2^e \<le> |q| < 2^(e+1)\<close>; the unit in the last
  place is \<open>2^(e-52)\<close>, with \<open>e\<close> no less than \<open>-1022\<close> (below that the values are
  subnormal, all multiples of \<open>2^(-1074)\<close>). The rounded value is the nearest multiple of
  the unit; from \<open>2^1024\<close> on it is out of range and the result is an infinity.
\<close>

function log2 :: "int \<Rightarrow> int" where
  "log2 n = (if n < 2 then 0 else log2 (n div 2) + 1)"
  by pat_completeness auto
termination
  by (relation "measure nat") auto

declare log2.simps [simp del]

definition exponent :: "rat \<Rightarrow> int" where
  "exponent q =
     (if 1 \<le> \<bar>q\<bar> then log2 \<lfloor>\<bar>q\<bar>\<rfloor>
      else - log2 (\<lceil>1 / \<bar>q\<bar>\<rceil> - 1) - 1)"

definition ulp :: "rat \<Rightarrow> rat" where
  "ulp q = 2 powi (max (exponent q) (- 1022) - 52)"

definition round_half_even :: "rat \<Rightarrow> int" where
  "round_half_even t =
     (let n = \<lfloor>t\<rfloor>; f = t - of_int n
      in if f < 1 / 2 then n else if 1 / 2 < f then n + 1
         else if even n then n else n + 1)"

definition rounded :: "rat \<Rightarrow> rat" where
  "rounded q = ulp q * of_int (round_half_even (q / ulp q))"

definition round_double :: "rat \<Rightarrow> number" where
  "round_double q =
     (if 2 ^ 1024 \<le> rounded q then PosInfinity
      else if rounded q \<le> - (2 ^ 1024) then NegInfinity
      else Finite (rounded q))"

text \<open>The representable values: those that rounding leaves unchanged.\<close>

definition is_double :: "rat \<Rightarrow> bool" where
  "is_double q = (round_double q = Finite q)"

text \<open>
  \<open>minutes / 60\<close>: the exact quotient, rounded. An infinity divided by \<open>60\<close> is itself, and
  \<open>NaN\<close> gives \<open>NaN\<close>.
\<close>

definition divide_by_60 :: "number \<Rightarrow> number" where
  "divide_by_60 x =
     (case x of Finite q \<Rightarrow> round_double (q / 60) | NaN \<Rightarrow> NaN
      | PosInfinity \<Rightarrow> PosInfinity | NegInfinity \<Rightarrow> NegInfinity)"

text \<open>
  The \<open>%\<close> operator on finite values: \<open>n - d * q\<close> where \<open>q\<close> is the quotient \<open>n / d\<close> rounded
  towards zero, so the result has the sign of the dividend. The result is exact in the
  language (the remainder of two doubles is a double). The only call is \<open>minutes % 60\<close>;
  an infinite or \<open>NaN\<close> dividend gives \<open>NaN\<close>.
\<close>

definition towards_zero :: "rat \<Rightarrow> int" where
  "towards_zero x = (if 0 \<le> x then \<lfloor>x\<rfloor> else \<lceil>x\<rceil>)"

definition remainder :: "rat \<Rightarrow> rat \<Rightarrow> rat" where
  "remainder n d = n - d * of_int (towards_zero (n / d))"

definition remainder_by_60 :: "number \<Rightarrow> number" where
  "remainder_by_60 x = (case x of Finite q \<Rightarrow> Finite (remainder q 60) | _ \<Rightarrow> NaN)"

text \<open>\<open>Math.floor\<close>: the greatest integer not above the argument.\<close>

definition Math_floor :: "number \<Rightarrow> integral" where
  "Math_floor x =
     (case x of Finite q \<Rightarrow> Finite \<lfloor>q\<rfloor> | NaN \<Rightarrow> NaN
      | PosInfinity \<Rightarrow> PosInfinity | NegInfinity \<Rightarrow> NegInfinity)"

text \<open>\<open>Math.round\<close>: the nearest integer, a tie going towards plus infinity.\<close>

definition Math_round :: "number \<Rightarrow> integral" where
  "Math_round x =
     (case x of Finite q \<Rightarrow> Finite \<lfloor>q + 1 / 2\<rfloor> | NaN \<Rightarrow> NaN
      | PosInfinity \<Rightarrow> PosInfinity | NegInfinity \<Rightarrow> NegInfinity)"

text \<open>The comparison \<open>hours > 0\<close>: false on \<open>NaN\<close>.\<close>

definition greater_zero :: "integral \<Rightarrow> bool" where
  "greater_zero x = (case x of Finite n \<Rightarrow> 0 < n | PosInfinity \<Rightarrow> True | _ \<Rightarrow> False)"

subsection \<open>The conversion of a number to a string\<close>

definition digit_char :: "nat \<Rightarrow> char" where
  "digit_char d =
     (if d = 0 then CHR ''0'' else if d = 1 then CHR ''1'' else if d = 2 then CHR ''2''
      else if d = 3 then CHR ''3'' else if d = 4 then CHR ''4'' else if d = 5 then CHR ''5''
      else if d = 6 then CHR ''6'' else if d = 7 then CHR ''7'' else if d = 8 then CHR ''8''
      else CHR ''9'')"

function digits :: "int \<Rightarrow> string" where
  "digits n =
     (if n < 10 then [digit_char (nat n)]
      else digits (n div 10) @ [digit_char (nat (n mod 10))])"
  by pat_completeness auto
termination
  by (relation "measure nat") auto

declare digits.simps [simp del]

text \<open>
  \<open>Number::toString\<close> on a positive integral double \<open>x\<close> takes the integers \<open>n\<close>, \<open>k\<close>, \<open>s\<close>
  with \<open>k\<close> as small as possible such that \<open>s\<close> has \<open>k\<close> digits and \<open>s * 10^(n-k)\<close> rounds
  to \<open>x\<close>; of two such \<open>s\<close> the one whose value is closer to \<open>x\<close>. With \<open>d\<close> the number of
  digits of \<open>x\<close> and \<open>j = d - k\<close>, the two candidates with \<open>k\<close> digits are \<open>x\<close> cut after
  \<open>k\<close> digits and that plus one; \<open>shortest\<close> tries \<open>k = 1, 2, ...\<close> and gives \<open>s\<close> and \<open>n\<close>.
\<close>

definition roundtrips :: "int \<Rightarrow> int \<Rightarrow> bool" where
  "roundtrips v x = (round_double (of_int v) = Finite (of_int x))"

definition candidate :: "int \<Rightarrow> nat \<Rightarrow> nat \<Rightarrow> (int \<times> nat) option" where
  "candidate x d j =
     (let p = 10 ^ j; lo = x div p; hi = lo + 1;
          lo_ok = roundtrips (lo * p) x; hi_ok = roundtrips (hi * p) x;
          up = (if hi * p = 10 ^ d then (1, d + 1) else (hi, d))
      in if lo_ok \<and> hi_ok
         then (if x - lo * p < hi * p - x \<or> (x - lo * p = hi * p - x \<and> even lo)
               then Some (lo, d) else Some up)
         else if lo_ok then Some (lo, d)
         else if hi_ok then Some up
         else None)"

fun shortest :: "int \<Rightarrow> nat \<Rightarrow> nat \<Rightarrow> int \<times> nat" where
  "shortest x d j =
     (case candidate x d j of
        Some r \<Rightarrow> r
      | None \<Rightarrow> if j = 0 then (x, d) else shortest x d (j - 1))"

declare shortest.simps [simp del]

text \<open>
  The digits of \<open>s\<close> are followed by \<open>n - k\<close> zeros when \<open>n \<le> 21\<close>; otherwise the notation
  with an exponent is used: the first digit, a point and the other digits if there are
  any, then \<open>e+\<close> and \<open>n - 1\<close>.
\<close>

definition decimal :: "int \<Rightarrow> string" where
  "decimal x =
     (let d = length (digits x);
          (s, n) = shortest x d (d - 1);
          ds = digits s
      in if n \<le> 21 then ds @ replicate (n - length ds) CHR ''0''
         else (if length ds = 1 then ds else hd ds # CHR ''.'' # tl ds)
              @ ''e+'' @ digits (int n - 1))"

definition Number_toString :: "integral \<Rightarrow> string" where
  "Number_toString x =
     (case x of
        NaN \<Rightarrow> ''NaN''
      | PosInfinity \<Rightarrow> ''Infinity''
      | NegInfinity \<Rightarrow> ''-Infinity''
      | Finite n \<Rightarrow>
          if n = 0 then ''0''
          else if n < 0 then CHR ''-'' # decimal (- n)
          else decimal n)"

subsection \<open>formatDowntime\<close>

definition formatDowntime :: "number \<Rightarrow> string" where
  "formatDowntime minutes =
     (let hours = Math_floor (divide_by_60 minutes);
          mins = Math_round (remainder_by_60 minutes)
      in if greater_zero hours
         then Number_toString hours @ ''h '' @ Number_toString mins @ ''m''
         else Number_toString mins @ ''m'')"

text \<open>
  The two output shapes, as recognisers on strings: one or more decimal digits followed
  by \<open>m\<close>, and one or more digits, \<open>h\<close>, a space, one or more digits, \<open>m\<close>.
\<close>

definition is_digit :: "char \<Rightarrow> bool" where
  "is_digit c = (c \<in> set ''0123456789'')"

definition matches_m :: "string \<Rightarrow> bool" where
  "matches_m s =
     (case rev s of [] \<Rightarrow> False
      | c # ds \<Rightarrow> c = CHR ''m'' \<and> ds \<noteq> [] \<and> list_all is_digit ds)"

definition matches_hm :: "string \<Rightarrow> bool" where
  "matches_hm s =
     (let h = takeWhile is_digit s; rest = dropWhile is_digit s
      in h \<noteq> [] \<and> take 2 rest = ''h '' \<and> matches_m (drop 2 rest))"

subsection \<open>The data model\<close>

text \<open>
  The page computes with \<open>minutes\<close> only; the other numeric fields and the rank are handed
  to the renderer as they are, and are kept as the values they denote.
\<close>

record Validator =
  name :: string
  website :: "string option"
  incidents :: rat
  minutes :: number

record Metadata =
  total_validators :: rat
  time_window :: string
  as_of :: string

record ApiResponse =
  data :: "Validator list"
  metadata :: Metadata

subsection \<open>Failures, the response and the ambient state\<close>

text \<open>
  A thrown value is an instance of \<open>Error\<close> (of the class itself or of a subclass) with its
  message, or some other value.
\<close>

datatype error_class = Error | TypeError | SyntaxError

datatype js_exn = Exn error_class string | NonError

text \<open>
  The body of a response is text that is not JSON, with the message of the parser's
  \<open>SyntaxError\<close>, or JSON. The parsed value has the type the page gives to its variable
  \<open>data\<close>, \<open>ApiResponse | null\<close>: its shape is trusted, as in the source, which validates
  nothing.
\<close>

datatype body = Malformed string | Parsed "ApiResponse option"

record response =
  ok :: bool
  content :: body

text \<open>\<open>response.json()\<close>\<close>

definition json :: "response \<Rightarrow> js_exn + ApiResponse option" where
  "json r = (case content r of
               Malformed message \<Rightarrow> Inl (Exn SyntaxError message)
             | Parsed v \<Rightarrow> Inr v)"

text \<open>
  The call of \<open>fetch\<close> on the fixed endpoint either rejects (a network failure) or
  resolves to a response.
\<close>

datatype fetch_outcome = Rejected js_exn | Resolved response

text \<open>
  What a render pass could read of its surroundings: the outcome of the request, the
  clock and the source of random numbers.
\<close>

record world =
  fetch :: fetch_outcome
  clock :: nat
  entropy :: nat

subsection \<open>getData\<close>

definition getData :: "world \<Rightarrow> js_exn + ApiResponse option" where
  "getData w =
     (case fetch w of
        Rejected e \<Rightarrow> Inl e
      | Resolved response \<Rightarrow>
          if \<not> ok response then Inl (Exn Error ''Failed to fetch data'')
          else json response)"

subsection \<open>The rendered tree\<close>

text \<open>
  The element tree a component returns: text, a number, or an element with its tag,
  its properties and its children. (The \<open>key\<close> of an element is kept among the
  properties, as the string the library makes of it.)
\<close>

datatype node =
    Text string
  | Number rat
  | Element string "(string \<times> string) list" "node list"

text \<open>Truthiness of a \<open>string | null\<close> value: neither \<open>null\<close> nor the empty string.\<close>

definition truthy :: "string option \<Rightarrow> bool" where
  "truthy v = (case v of None \<Rightarrow> False | Some s \<Rightarrow> s \<noteq> [])"

text \<open>\<open>v || d\<close> on a \<open>string | null\<close> value \<open>v\<close> and a string \<open>d\<close>.\<close>

definition or_else :: "string option \<Rightarrow> string \<Rightarrow> string" where
  "or_else v d = (case v of None \<Rightarrow> d | Some s \<Rightarrow> if s \<noteq> [] then s else d)"

text \<open>\<open>Array.prototype.map\<close> with the element and its index.\<close>

fun map_from :: "nat \<Rightarrow> ('a \<Rightarrow> nat \<Rightarrow> 'b) \<Rightarrow> 'a list \<Rightarrow> 'b list" where
  "map_from i f [] = []"
| "map_from i f (x # xs) = f x i # map_from (Suc i) f xs"

definition array_map :: "('a \<Rightarrow> nat \<Rightarrow> 'b) \<Rightarrow> 'a list \<Rightarrow> 'b list" where
  "array_map f xs = map_from 0 f xs"

subsection \<open>Home\<close>

text \<open>
  The row the page builds for one validator and its index. The website cell tests the
  truthiness of \<open>validator.website\<close>: \<open>null\<close> and the empty string both take the second
  branch of the conditional.
\<close>

definition validator_row :: "Validator \<Rightarrow> nat \<Rightarrow> node" where
  "validator_row validator index =
     Element ''tr'' [(''key'', Number_toString (Finite (int index)))]
       [Element ''td'' [(''className'', ''rank'')] [Number (of_nat (index + 1))],
        Element ''td'' [(''className'', ''validator-name'')] [Text (name validator)],
        Element ''td'' []
          [case website validator of
             None \<Rightarrow> Element ''span'' [(''className'', ''no-website'')] [Text ''N/A'']
           | Some url \<Rightarrow>
               if url \<noteq> []
               then Element ''a''
                      [(''href'', url), (''target'', ''_blank''),
                       (''rel'', ''noopener noreferrer''), (''className'', ''website-link'')]
                      [Text url]
               else Element ''span'' [(''className'', ''no-website'')] [Text ''N/A'']],
        Element ''td'' [(''className'', ''downtime'')]
          [Text (formatDowntime (minutes validator))],
        Element ''td'' [(''className'', ''incidents'')] [Number (incidents validator)]]"

text \<open>
  The component. The \<open>try\<close>/\<open>catch\<close> around the awaited \<open>getData\<close> leaves the pair of
  \<open>data\<close> and \<open>error\<close>; the test \<open>error || !data\<close> selects the error view, and the table
  is built otherwise. The result is the tree returned, or the exception the component
  would end with.
\<close>

definition Home :: "world \<Rightarrow> js_exn + node" where
  "Home w =
     (let (dat, error) =
            (case getData w of
               Inr d \<Rightarrow> (d, None)
             | Inl err \<Rightarrow>
                 (None, Some (case err of Exn c message \<Rightarrow> message
                                | NonError \<Rightarrow> ''An error occurred'')))
      in case (truthy error, dat) of
           (False, Some d) \<Rightarrow>
             Inr (Element ''div'' [(''className'', ''container'')]
               [Element ''header'' []
                  [Element ''h1'' [] [Text ''SOL Validator Downtime Leaderboard''],
                   Element ''div'' [(''className'', ''metadata'')]
                     [Element ''div'' [(''className'', ''metadata-item'')]
                        [Element ''span'' [(''className'', ''metadata-label'')]
                           [Text ''Total Validators''],
                         Element ''span'' [(''className'', ''metadata-value'')]
                           [Number (total_validators (metadata d))]],
                      Element ''div'' [(''className'', ''metadata-item'')]
                        [Element ''span'' [(''className'', ''metadata-label'')]
                           [Text ''Time Window''],
                         Element ''span'' [(''className'', ''metadata-value'')]
                           [Text (time_window (metadata d))]],
                      Element ''div'' [(''className'', ''metadata-item'')]
                        [Element ''span'' [(''className'', ''metadata-label'')]
                           [Text ''Last Updated''],
                         Element ''span'' [(''className'', ''metadata-value'')]
                           [Text (as_of (metadata d))]]]],
                Element ''div'' [(''className'', ''table-container'')]
                  [Element ''table'' []
                     [Element ''thead'' []
                        [Element ''tr'' []
                           [Element ''th'' [] [Text ''#''],
                            Element ''th'' [] [Text ''Validator Name''],
                            Element ''th'' [] [Text ''Website''],
                            Element ''th'' [] [Text ''Downtime''],
                            Element ''th'' [] [Text ''Incidents'']]],
                      Element ''tbody'' [] (array_map validator_row (data d))]],
                Element ''div'' [(''className'', ''refresh-info'')]
                  [Text (''Data is updated at build time. Rebuilds happen '' @
                         ''automatically on each push to main branch.'')]])
         | _ \<Rightarrow>
             Inr (Element ''div'' [(''className'', ''container'')]
               [Element ''div'' [(''className'', ''error'')]
                  [Text ''Error loading data: '',
                   Text (or_else error ''No data available'')]]))"

subsection \<open>Reading a rendered tree\<close>

text \<open>
  The children of an element, and the elements of a tree with a given tag or a given
  class, in document order.
\<close>

fun children :: "node \<Rightarrow> node list" where
  "children (Element tag props kids) = kids"
| "children _ = []"

fun by_tag :: "string \<Rightarrow> node \<Rightarrow> node list" where
  "by_tag t (Element tag props kids) =
     (if tag = t then [Element tag props kids] else []) @ concat (map (by_tag t) kids)"
| "by_tag t _ = []"

fun by_class :: "string \<Rightarrow> node \<Rightarrow> node list" where
  "by_class c (Element tag props kids) =
     (if map_of props ''className'' = Some c then [Element tag props kids] else [])
     @ concat (map (by_class c) kids)"
| "by_class c _ = []"

text \<open>The rows of the table body.\<close>

definition body_rows :: "node \<Rightarrow> node list" where
  "body_rows page = concat (map children (by_tag ''tbody'' page))"

definition table_tags :: "string list" where
  "table_tags = [''table'', ''thead'', ''tbody'', ''tr'', ''th'', ''td'']"

definition no_table_markup :: "node \<Rightarrow> bool" where
  "no_table_markup page = list_all (\<lambda>t. by_tag t page = []) table_tags"

section \<open>Properties of the number model\<close>

lemma log2_nonneg: "0 \<le> log2 n"
  by (induction n rule: log2.induct) (subst log2.simps, simp)

lemma log2_bounds:
  "1 \<le> n \<Longrightarrow> 2 ^ nat (log2 n) \<le> n \<and> n < 2 * 2 ^ nat (log2 n)"
proof (induction n rule: log2.induct)
  case (1 n)
  show ?case
  proof (cases "n < 2")
    case True
    with 1(2) have "n = 1" by simp
    then show ?thesis by (subst (1 2) log2.simps) simp
  next
    case False
    then have half: "1 \<le> n div 2" by simp
    from 1(1) [OF False half]
    have ih: "2 ^ nat (log2 (n div 2)) \<le> n div 2" "n div 2 < 2 * 2 ^ nat (log2 (n div 2))"
      by simp_all
    have eq: "log2 n = log2 (n div 2) + 1" using False by (subst log2.simps) simp
    have suc: "nat (log2 n) = Suc (nat (log2 (n div 2)))"
      using log2_nonneg [of "n div 2"] by (simp add: eq nat_add_distrib)
    have "2 * (n div 2) \<le> n" by simp
    moreover have "n < 2 * (n div 2) + 2" by presburger
    ultimately show ?thesis using ih by (simp add: suc)
  qed
qed

lemma power_int_log2:
  "1 \<le> n \<Longrightarrow> (2::rat) powi log2 n \<le> of_int n \<and> of_int n < (2::rat) powi (log2 n + 1)"
proof -
  assume n: "1 \<le> n"
  from log2_bounds [OF n] have "(2::int) ^ nat (log2 n) \<le> n" "n < 2 * 2 ^ nat (log2 n)"
    by simp_all
  then have "(of_int (2 ^ nat (log2 n)) :: rat) \<le> of_int n"
    "(of_int n :: rat) < of_int (2 * 2 ^ nat (log2 n))"
    by (simp_all only: of_int_le_iff of_int_less_iff)
  then show ?thesis
    using log2_nonneg [of n]
    by (simp add: power_int_def nat_add_distrib)
qed

lemma two_powi_less_iff: "(2::rat) powi a < 2 powi b \<longleftrightarrow> a < b"
proof
  assume less: "(2::rat) powi a < 2 powi b"
  show "a < b"
  proof (rule ccontr)
    assume "\<not> a < b"
    then have "b \<le> a" by simp
    then have "(2::rat) powi b \<le> 2 powi a" by (intro power_int_increasing) simp_all
    with less show False by simp
  qed
next
  assume "a < b"
  then show "(2::rat) powi a < 2 powi b" by (intro power_int_strict_increasing) simp_all
qed

lemma two_powi_le_iff: "(2::rat) powi a \<le> 2 powi b \<longleftrightarrow> a \<le> b"
  using two_powi_less_iff [of b a] by (simp add: not_less [symmetric])

lemma exponent_bounds:
  assumes "q \<noteq> 0"
  shows "2 powi exponent q \<le> \<bar>q\<bar>" and "\<bar>q\<bar> < 2 powi (exponent q + 1)"
proof -
  have "2 powi exponent q \<le> \<bar>q\<bar> \<and> \<bar>q\<bar> < 2 powi (exponent q + 1)"
  proof (cases "1 \<le> \<bar>q\<bar>")
    case True
    then have n: "1 \<le> \<lfloor>\<bar>q\<bar>\<rfloor>" by simp
    have e: "exponent q = log2 \<lfloor>\<bar>q\<bar>\<rfloor>" using True by (simp add: exponent_def)
    from power_int_log2 [OF n]
    have "(2::rat) powi exponent q \<le> of_int \<lfloor>\<bar>q\<bar>\<rfloor>"
      and up: "(of_int \<lfloor>\<bar>q\<bar>\<rfloor> :: rat) < 2 powi (exponent q + 1)"
      by (simp_all add: e)
    then have lower: "2 powi exponent q \<le> \<bar>q\<bar>"
      using of_int_floor_le [of "\<bar>q\<bar>"] by linarith
    have "(2::rat) powi (exponent q + 1) = of_int (2 ^ nat (exponent q + 1))"
      using log2_nonneg [of "\<lfloor>\<bar>q\<bar>\<rfloor>"] by (simp add: e power_int_def)
    with up have "\<lfloor>\<bar>q\<bar>\<rfloor> < 2 ^ nat (exponent q + 1)"
      by (simp only: of_int_less_iff)
    then have "\<bar>q\<bar> < of_int (2 ^ nat (exponent q + 1))"
      by (simp add: floor_less_iff)
    then have "\<bar>q\<bar> < 2 powi (exponent q + 1)"
      using log2_nonneg [of "\<lfloor>\<bar>q\<bar>\<rfloor>"] by (simp add: e power_int_def)
    with lower show ?thesis by simp
  next
    case False
    define t where "t = 1 / \<bar>q\<bar>"
    define l where "l = log2 (\<lceil>t\<rceil> - 1)"
    from False assms have q: "0 < \<bar>q\<bar>" "\<bar>q\<bar> < 1" by simp_all
    then have t: "1 < t" by (simp add: t_def)
    then have c: "1 \<le> \<lceil>t\<rceil> - 1" by (simp add: less_ceiling_iff)
    have e: "exponent q = - l - 1" using False by (simp add: exponent_def l_def t_def)
    from power_int_log2 [OF c]
    have lo: "(2::rat) powi l \<le> of_int (\<lceil>t\<rceil> - 1)"
      and up: "(of_int (\<lceil>t\<rceil> - 1) :: rat) < 2 powi (l + 1)"
      by (simp_all add: l_def)
    have l0: "0 \<le> l" by (simp add: l_def log2_nonneg)
    have "(of_int (\<lceil>t\<rceil> - 1) :: rat) < t" by (simp add: ceiling_correct)
    with lo have tl: "2 powi l < t" by linarith
    have "(2::rat) powi (l + 1) = of_int (2 ^ nat (l + 1))" using l0 by (simp add: power_int_def)
    with up have "\<lceil>t\<rceil> - 1 < 2 ^ nat (l + 1)" by (simp only: of_int_less_iff)
    then have "\<lceil>t\<rceil> \<le> 2 ^ nat (l + 1)" by simp
    then have "t \<le> of_int (2 ^ nat (l + 1))" by (simp only: ceiling_le_iff)
    then have tu: "t \<le> 2 powi (l + 1)" using l0 by (simp add: power_int_def)
    have pos: "(0::rat) < 2 powi l" "(0::rat) < 2 powi (l + 1)" by simp_all
    have qt: "\<bar>q\<bar> = 1 / t" by (simp add: t_def)
    have "1 / (2 powi (l + 1)) \<le> 1 / t"
      using tu t by (intro divide_left_mono) (simp_all)
    moreover have "- l - 1 = - (l + 1)" by simp
    ultimately have lower: "2 powi exponent q \<le> \<bar>q\<bar>"
      by (simp only: e qt power_int_minus_divide)
    have "1 / t < 1 / (2 powi l)"
    proof (rule divide_strict_left_mono)
      show "2 powi l < t" by (rule tl)
      show "(0::rat) < 1" by simp
      from t have "0 < t" by simp
      then show "0 < t * 2 powi l" using pos(1) by (rule mult_pos_pos)
    qed
    then have "\<bar>q\<bar> < 2 powi (exponent q + 1)"
      by (simp add: e qt power_int_minus_divide [symmetric])
    with lower show ?thesis by simp
  qed
  then show "2 powi exponent q \<le> \<bar>q\<bar>" and "\<bar>q\<bar> < 2 powi (exponent q + 1)" by simp_all
qed

lemma exponent_unique:
  assumes "2 powi e \<le> \<bar>q\<bar>" and "\<bar>q\<bar> < 2 powi (e + 1)"
  shows "exponent q = e"
proof -
  have pos: "(0::rat) < 2 powi e" by simp
  have q: "q \<noteq> 0"
  proof
    assume "q = 0"
    with assms(1) have "(2::rat) powi e \<le> 0" by simp
    with pos show False by linarith
  qed
  note b = exponent_bounds [OF q]
  have "2 powi e < (2::rat) powi (exponent q + 1)" using assms(1) b(2) by linarith
  then have "e < exponent q + 1" by (simp only: two_powi_less_iff)
  moreover have "2 powi exponent q < (2::rat) powi (e + 1)" using assms(2) b(1) by linarith
  then have "exponent q < e + 1" by (simp only: two_powi_less_iff)
  ultimately show ?thesis by simp
qed

lemma round_half_even_of_int [simp]: "round_half_even (of_int m) = m"
  by (simp add: round_half_even_def)

lemma round_half_even_cases:
  "round_half_even t = \<lfloor>t\<rfloor> \<or> round_half_even t = \<lfloor>t\<rfloor> + 1"
  by (simp add: round_half_even_def Let_def)

lemma round_half_even_lower: "of_int n \<le> t \<Longrightarrow> n \<le> round_half_even t"
proof -
  assume "of_int n \<le> t"
  then have "n \<le> \<lfloor>t\<rfloor>" by (simp add: le_floor_iff)
  with round_half_even_cases [of t] show ?thesis by auto
qed

lemma round_half_even_upper: "t \<le> of_int n \<Longrightarrow> round_half_even t \<le> n"
proof (cases "t = of_int \<lfloor>t\<rfloor>")
  case True
  assume "t \<le> of_int n"
  then have "\<lfloor>t\<rfloor> \<le> n" by (simp add: floor_le_iff)
  moreover from True have "round_half_even t = \<lfloor>t\<rfloor>"
    by (metis round_half_even_of_int)
  ultimately show ?thesis by simp
next
  case False
  assume le: "t \<le> of_int n"
  have "of_int \<lfloor>t\<rfloor> \<le> t" by simp
  with False have "of_int \<lfloor>t\<rfloor> < t" by linarith
  with le have "(of_int \<lfloor>t\<rfloor> :: rat) < of_int n" by linarith
  then have "\<lfloor>t\<rfloor> < n" by (simp only: of_int_less_iff)
  with round_half_even_cases [of t] show ?thesis by auto
qed

lemma round_half_even_error: "\<bar>of_int (round_half_even t) - t\<bar> \<le> 1 / 2"
proof -
  have "of_int \<lfloor>t\<rfloor> \<le> t" "t < of_int \<lfloor>t\<rfloor> + 1" by linarith+
  then show ?thesis by (auto simp: round_half_even_def Let_def)
qed

lemma round_half_even_minus: "round_half_even (- t) = - round_half_even t"
proof (cases "t = of_int \<lfloor>t\<rfloor>")
  case True
  then obtain m where "t = of_int m" ..
  then have "- t = of_int (- m)" by simp
  then show ?thesis using \<open>t = of_int m\<close> by (simp only: round_half_even_of_int)
next
  case False
  then have c: "\<lceil>t\<rceil> = \<lfloor>t\<rfloor> + 1"
    by (metis ceiling_altdef of_int_floor_cancel)
  have fl: "\<lfloor>- t\<rfloor> = - \<lfloor>t\<rfloor> - 1" using c by (simp add: floor_minus)
  have b: "of_int \<lfloor>t\<rfloor> < t" "t < of_int \<lfloor>t\<rfloor> + 1"
    using False of_int_floor_le [of t] by linarith+
  show ?thesis
    using b by (auto simp: round_half_even_def Let_def fl)
qed

lemma ulp_pos [simp]: "0 < ulp q"
  by (simp add: ulp_def)

lemma ulp_nonzero [simp]: "ulp q \<noteq> 0"
  by (simp add: ulp_def)

lemma ulp_minus [simp]: "ulp (- q) = ulp q"
  by (simp add: ulp_def exponent_def)

lemma round_double_rounded:
  "round_double q =
     (if 2 ^ 1024 \<le> rounded q then PosInfinity
      else if rounded q \<le> - (2 ^ 1024) then NegInfinity else Finite (rounded q))"
  by (simp add: round_double_def)

lemma rounded_minus: "rounded (- q) = - rounded q"
  by (simp add: rounded_def round_half_even_minus)

lemma rounded_error: "\<bar>rounded q - q\<bar> \<le> ulp q / 2"
proof -
  have "\<bar>of_int (round_half_even (q / ulp q)) - q / ulp q\<bar> \<le> 1 / 2"
    by (rule round_half_even_error)
  then have "ulp q * \<bar>of_int (round_half_even (q / ulp q)) - q / ulp q\<bar> \<le> ulp q * (1 / 2)"
    using ulp_pos [of q] by (intro mult_left_mono) (simp_all add: less_imp_le)
  moreover have "ulp q * \<bar>of_int (round_half_even (q / ulp q)) - q / ulp q\<bar>
      = \<bar>rounded q - q\<bar>"
  proof -
    have "ulp q \<noteq> 0" by (simp add: ulp_def)
    then have "\<bar>rounded q - q\<bar> = \<bar>ulp q * (of_int (round_half_even (q / ulp q)) - q / ulp q)\<bar>"
      by (simp add: rounded_def algebra_simps)
    also have "\<dots> = ulp q * \<bar>of_int (round_half_even (q / ulp q)) - q / ulp q\<bar>"
      using ulp_pos [of q] by (simp add: abs_mult less_imp_le)
    finally show ?thesis by simp
  qed
  ultimately show ?thesis by simp
qed

text \<open>A multiple of the unit is left unchanged.\<close>

lemma rounded_multiple:
  assumes "q = ulp q * of_int m"
  shows "rounded q = q"
proof -
  have "q / ulp q = of_int m"
    using assms ulp_pos [of q] by (metis less_irrefl nonzero_mult_div_cancel_left)
  then show ?thesis using assms by (simp add: rounded_def)
qed

lemma is_double_iff:
  "is_double q \<longleftrightarrow> rounded q = q \<and> \<bar>q\<bar> < 2 ^ 1024"
  by (auto simp: is_double_def round_double_rounded)

lemma two_powi_split: "j \<le> k \<Longrightarrow> (2::rat) powi k = 2 powi j * of_int (2 ^ nat (k - j))"
proof -
  assume "j \<le> k"
  define n where "n = nat (k - j)"
  have k: "k = j + int n" using \<open>j \<le> k\<close> by (simp add: n_def)
  have "(2::rat) powi (j + int n) = 2 powi j * 2 powi int n" by (rule power_int_add) simp
  then show ?thesis unfolding n_def [symmetric] by (simp only: k) simp
qed

lemma ulp_nonneg [simp]: "0 \<le> ulp q"
  using ulp_pos [of q] by (simp only: less_imp_le)

lemma round_half_even_zero [simp]: "round_half_even 0 = 0"
  using round_half_even_of_int [of 0] by simp

lemma exponent_ge:
  assumes "2 powi e \<le> \<bar>q\<bar>"
  shows "e \<le> exponent q"
proof -
  have pos: "(0::rat) < 2 powi e" by simp
  have "q \<noteq> 0"
  proof
    assume "q = 0"
    with assms have "(2::rat) powi e \<le> 0" by simp
    with pos show False by linarith
  qed
  from exponent_bounds(2) [OF this] assms have "(2::rat) powi e < 2 powi (exponent q + 1)"
    by linarith
  then show ?thesis by (simp add: two_powi_less_iff)
qed

lemma exponent_le:
  assumes "q \<noteq> 0" and "\<bar>q\<bar> < 2 powi (e + 1)"
  shows "exponent q \<le> e"
proof -
  from exponent_bounds(1) [OF assms(1)] assms(2)
  have "(2::rat) powi exponent q < 2 powi (e + 1)" by linarith
  then show ?thesis by (simp add: two_powi_less_iff)
qed

lemma exponent_mono:
  assumes "a \<noteq> 0" and "\<bar>a\<bar> \<le> \<bar>b\<bar>"
  shows "exponent a \<le> exponent b"
proof -
  from exponent_bounds(1) [OF assms(1)] assms(2) have "2 powi exponent a \<le> \<bar>b\<bar>" by linarith
  then show ?thesis by (rule exponent_ge)
qed

lemma is_double_multiple:
  assumes "is_double q"
  shows "\<exists>m. q = ulp q * of_int m"
proof -
  from assms have "rounded q = q" by (simp add: is_double_iff)
  then have "q = ulp q * of_int (round_half_even (q / ulp q))" by (simp only: rounded_def)
  then show ?thesis ..
qed

lemma is_double_intro:
  assumes q: "q = of_int m * 2 powi k" and m: "\<bar>m\<bar> < 2 ^ 53"
    and k: "- 1074 \<le> k" "k \<le> 971"
  shows "is_double q"
proof (cases "q = 0")
  case True
  then show ?thesis by (simp add: is_double_iff rounded_def)
next
  case False
  have "(of_int \<bar>m\<bar> :: rat) < of_int (2 ^ 53)" using m by (simp only: of_int_less_iff)
  then have mr: "\<bar>of_int m :: rat\<bar> < 2 ^ 53" by simp
  have abs_q: "\<bar>q\<bar> = \<bar>of_int m\<bar> * 2 powi k" by (simp add: q abs_mult)
  have "\<bar>q\<bar> < 2 ^ 53 * 2 powi k"
    unfolding abs_q using mr by (intro mult_strict_right_mono) simp_all
  also have "\<dots> = 2 powi (k + 52 + 1)"
    using two_powi_split [of k "k + 52 + 1"] by (simp add: mult.commute)
  finally have less: "\<bar>q\<bar> < 2 powi (k + 52 + 1)" .
  from exponent_le [OF False less] have "exponent q - 52 \<le> k" by simp
  define c where "c = max (exponent q) (- 1022) - 52"
  have u: "ulp q = 2 powi c" by (simp add: ulp_def c_def)
  from \<open>exponent q - 52 \<le> k\<close> k(1) have "c \<le> k" by (simp add: c_def)
  then have "(2::rat) powi k = 2 powi c * of_int (2 ^ nat (k - c))" by (rule two_powi_split)
  then have "of_int m * (2::rat) powi k = 2 powi c * of_int (m * 2 ^ nat (k - c))" by simp
  with q have "q = 2 powi c * of_int (m * 2 ^ nat (k - c))" by (rule trans)
  then have "q = ulp q * of_int (m * 2 ^ nat (k - c))" unfolding u .
  then have "rounded q = q" by (rule rounded_multiple)
  moreover have "(2::rat) powi (k + 52 + 1) \<le> 2 powi 1024"
    using k(2) by (simp only: two_powi_le_iff)
  with less have "\<bar>q\<bar> < 2 ^ 1024" by simp
  ultimately show ?thesis by (simp add: is_double_iff)
qed

lemma is_double_of_int: "\<bar>m\<bar> < 2 ^ 53 \<Longrightarrow> is_double (of_int m)"
  using is_double_intro [of "of_int m" m 0] by simp

lemma is_double_grid:
  assumes "is_double q" and "2 powi e \<le> \<bar>q\<bar>" and "- 1022 \<le> e"
  shows "\<exists>m. q = of_int m * 2 powi (e - 52)"
proof -
  from is_double_multiple [OF assms(1)] obtain m where m: "q = ulp q * of_int m" ..
  define c where "c = max (exponent q) (- 1022) - 52"
  have u: "ulp q = 2 powi c" by (simp add: ulp_def c_def)
  from exponent_ge [OF assms(2)] assms(3) have "e - 52 \<le> c" by (simp add: c_def)
  then have "(2::rat) powi c = 2 powi (e - 52) * of_int (2 ^ nat (c - (e - 52)))"
    by (rule two_powi_split)
  then have "(2::rat) powi c * of_int m
      = of_int (2 ^ nat (c - (e - 52)) * m) * 2 powi (e - 52)"
    by simp
  then have "q = of_int (2 ^ nat (c - (e - 52)) * m) * 2 powi (e - 52)"
    using m by (simp only: u)
  then show ?thesis ..
qed

lemma rounded_nonneg: "0 \<le> q \<Longrightarrow> 0 \<le> rounded q"
proof -
  assume "0 \<le> q"
  then have "of_int 0 \<le> q / ulp q" by simp
  then have "0 \<le> round_half_even (q / ulp q)" by (rule round_half_even_lower)
  then show ?thesis by (simp add: rounded_def)
qed

lemma rounded_le_binade:
  assumes "0 < y"
  shows "rounded y \<le> 2 powi (max (exponent y) (- 1022) + 1)"
proof -
  define g where "g = max (exponent y) (- 1022)"
  have u: "ulp y = 2 powi (g - 52)" by (simp add: ulp_def g_def)
  from assms have "y \<noteq> 0" by simp
  from exponent_bounds(2) [OF this] assms have "y < 2 powi (exponent y + 1)" by simp
  also have "\<dots> \<le> 2 powi (g + 1)" by (simp add: two_powi_le_iff g_def)
  finally have "y < 2 powi (g + 1)" .
  also have "\<dots> = ulp y * of_int (2 ^ 53)"
    using two_powi_split [of "g - 52" "g + 1"] by (simp add: u)
  finally have "y / ulp y \<le> of_int (2 ^ 53)"
    by (simp add: pos_divide_le_eq mult.commute less_imp_le)
  then have "round_half_even (y / ulp y) \<le> 2 ^ 53" by (rule round_half_even_upper)
  then have "(of_int (round_half_even (y / ulp y)) :: rat) \<le> of_int (2 ^ 53)"
    by (simp only: of_int_le_iff)
  then have "rounded y \<le> ulp y * of_int (2 ^ 53)"
    unfolding rounded_def by (intro mult_left_mono) simp_all
  also have "\<dots> = 2 powi (g + 1)"
    using two_powi_split [of "g - 52" "g + 1"] by (simp add: u)
  finally show ?thesis by (simp add: g_def)
qed

lemma rounded_ge_binade:
  assumes "0 < y" and "- 1022 \<le> exponent y"
  shows "2 powi exponent y \<le> rounded y"
proof -
  define g where "g = exponent y"
  have u: "ulp y = 2 powi (g - 52)" using assms(2) by (simp add: ulp_def g_def max_def)
  from assms have "y \<noteq> 0" by simp
  from exponent_bounds(1) [OF this] assms have "2 powi g \<le> y" by (simp add: g_def)
  moreover have "(2::rat) powi g = ulp y * of_int (2 ^ 52)"
    using two_powi_split [of "g - 52" g] by (simp add: u)
  ultimately have "of_int (2 ^ 52) \<le> y / ulp y"
    by (simp add: pos_le_divide_eq mult.commute)
  then have "2 ^ 52 \<le> round_half_even (y / ulp y)" by (rule round_half_even_lower)
  then have "(of_int (2 ^ 52) :: rat) \<le> of_int (round_half_even (y / ulp y))"
    by (simp only: of_int_le_iff)
  then have "ulp y * of_int (2 ^ 52) \<le> rounded y"
    unfolding rounded_def by (intro mult_left_mono) simp_all
  also have "ulp y * of_int (2 ^ 52) = 2 powi g"
    using two_powi_split [of "g - 52" g] by (simp add: u)
  finally show ?thesis by (simp add: g_def)
qed

lemma rounded_le_double:
  assumes "0 \<le> y" and "y \<le> b" and "is_double b"
  shows "rounded y \<le> b"
proof (cases "y = 0")
  case True
  with assms show ?thesis by (simp add: rounded_def)
next
  case False
  with assms have y: "0 < y" and b: "0 < b" by simp_all
  define gy where "gy = max (exponent y) (- 1022)"
  define gb where "gb = max (exponent b) (- 1022)"
  have "exponent y \<le> exponent b" using False assms by (intro exponent_mono) simp_all
  then have g: "gy \<le> gb" by (simp add: gy_def gb_def)
  show ?thesis
  proof (cases "gy = gb")
    case True
    then have u: "ulp y = ulp b" by (simp add: ulp_def gy_def gb_def)
    from is_double_multiple [OF assms(3)] obtain m where m: "b = ulp b * of_int m" ..
    have "y / ulp b \<le> b / ulp b" using assms(2) by (simp add: divide_right_mono)
    also have "b / ulp b = of_int m"
      by (subst m) simp
    finally have "round_half_even (y / ulp b) \<le> m" by (rule round_half_even_upper)
    then have "(of_int (round_half_even (y / ulp b)) :: rat) \<le> of_int m"
      by (simp only: of_int_le_iff)
    then have "ulp b * of_int (round_half_even (y / ulp b)) \<le> ulp b * of_int m"
      by (intro mult_left_mono) simp_all
    then show ?thesis using m by (simp add: rounded_def u)
  next
    case False
    with g have less: "gy + 1 \<le> gb" by simp
    then have "- 1022 < gb" by (simp add: gy_def)
    then have gb: "gb = exponent b" by (simp add: gb_def max_def split: if_splits)
    have "rounded y \<le> 2 powi (gy + 1)" using rounded_le_binade [OF y] by (simp add: gy_def)
    also have "\<dots> \<le> 2 powi gb" using less by (simp only: two_powi_le_iff)
    also have "\<dots> \<le> b" using exponent_bounds(1) [of b] b by (simp add: gb)
    finally show ?thesis .
  qed
qed

lemma double_le_rounded:
  assumes "0 \<le> a" and "a \<le> y" and "is_double a"
  shows "a \<le> rounded y"
proof (cases "a = 0")
  case True
  with assms show ?thesis by (simp add: rounded_nonneg)
next
  case False
  with assms have a: "0 < a" and y: "0 < y" by simp_all
  define ga where "ga = max (exponent a) (- 1022)"
  define gy where "gy = max (exponent y) (- 1022)"
  have "exponent a \<le> exponent y" using False assms by (intro exponent_mono) simp_all
  then have g: "ga \<le> gy" by (simp add: ga_def gy_def)
  show ?thesis
  proof (cases "ga = gy")
    case True
    then have u: "ulp y = ulp a" by (simp add: ulp_def ga_def gy_def)
    from is_double_multiple [OF assms(3)] obtain m where m: "a = ulp a * of_int m" ..
    have "a / ulp a = of_int m" by (subst m) simp
    moreover have "a / ulp a \<le> y / ulp a" using assms(2) by (simp add: divide_right_mono)
    ultimately have "of_int m \<le> y / ulp a" by simp
    then have "m \<le> round_half_even (y / ulp a)" by (rule round_half_even_lower)
    then have "(of_int m :: rat) \<le> of_int (round_half_even (y / ulp a))"
      by (simp only: of_int_le_iff)
    then have "ulp a * of_int m \<le> ulp a * of_int (round_half_even (y / ulp a))"
      by (intro mult_left_mono) simp_all
    then show ?thesis using m by (simp add: rounded_def u)
  next
    case False
    with g have less: "ga + 1 \<le> gy" by simp
    then have "- 1022 < gy" by (simp add: ga_def)
    then have gy: "gy = exponent y" "- 1022 \<le> exponent y"
      by (simp_all add: gy_def max_def split: if_splits)
    have "a < 2 powi (exponent a + 1)" using exponent_bounds(2) [of a] a by simp
    also have "\<dots> \<le> 2 powi (ga + 1)" by (simp add: two_powi_le_iff ga_def)
    also have "\<dots> \<le> 2 powi gy" using less by (simp only: two_powi_le_iff)
    also have "\<dots> \<le> rounded y" using rounded_ge_binade [OF y gy(2)] by (simp add: gy(1))
    finally show ?thesis by simp
  qed
qed

text \<open>Rounding is monotone and leaves doubles unchanged: between two doubles it stays.\<close>

lemma round_double_between:
  assumes "is_double a" and "is_double b" and "a \<le> y" and "y \<le> b"
  shows "\<exists>r. round_double y = Finite r \<and> a \<le> r \<and> r \<le> b"
proof -
  have ab: "\<bar>a\<bar> < 2 ^ 1024" "\<bar>b\<bar> < 2 ^ 1024" using assms(1,2) by (simp_all add: is_double_iff)
  have neg: "is_double (- a)" "is_double (- b)"
    using assms(1,2) by (simp_all add: is_double_iff rounded_minus)
  have "a \<le> rounded y \<and> rounded y \<le> b"
  proof (cases "0 \<le> y")
    case True
    then have up: "rounded y \<le> b" using assms(4,2) by (rule rounded_le_double)
    have "a \<le> rounded y"
    proof (cases "0 \<le> a")
      case True
      then show ?thesis using assms(3,1) by (rule double_le_rounded)
    next
      case False
      with rounded_nonneg [OF \<open>0 \<le> y\<close>] show ?thesis by simp
    qed
    with up show ?thesis by simp
  next
    case False
    then have y: "0 \<le> - y" by simp
    have "rounded (- y) \<le> - a" using y assms(3) neg(1) by (intro rounded_le_double) simp_all
    then have lo: "a \<le> rounded y" by (simp add: rounded_minus)
    have "rounded y \<le> b"
    proof (cases "b \<le> 0")
      case True
      then have "- b \<le> rounded (- y)"
        using assms(4) neg(2) by (intro double_le_rounded) simp_all
      then show ?thesis by (simp add: rounded_minus)
    next
      case False
      from rounded_nonneg [OF y] have "rounded y \<le> 0" by (simp add: rounded_minus)
      with False show ?thesis by simp
    qed
    with lo show ?thesis by simp
  qed
  with ab show ?thesis by (auto simp: round_double_rounded)
qed

lemma round_double_exact: "is_double q \<Longrightarrow> round_double q = Finite q"
  by (simp add: is_double_def)

section \<open>Properties of the formatter\<close>

lemma is_digit_digit_char: "is_digit (digit_char d)"
  by (simp add: is_digit_def digit_char_def)

lemma digits_all_digit: "list_all is_digit (digits n)"
proof (induction n rule: digits.induct)
  case (1 n)
  show ?case
  proof (cases "n < 10")
    case True
    then show ?thesis by (subst digits.simps) (simp add: is_digit_digit_char)
  next
    case False
    with 1 show ?thesis by (subst digits.simps) (simp add: is_digit_digit_char)
  qed
qed

lemma digits_nonempty: "digits n \<noteq> []"
  by (subst digits.simps) simp

lemma length_digits: "0 < k \<Longrightarrow> n < 10 ^ k \<Longrightarrow> length (digits n) \<le> k"
proof (induction n arbitrary: k rule: digits.induct)
  case (1 n)
  show ?case
  proof (cases "n < 10")
    case True
    then show ?thesis using 1(2) by (subst digits.simps) simp
  next
    case False
    then obtain k' where k: "k = Suc k'" using 1(2) by (cases k) simp_all
    have "k' \<noteq> 0"
    proof
      assume "k' = 0"
      with k 1(3) False show False by simp
    qed
    then have pos: "0 < k'" by simp
    have step: "n div 10 < K" if "n < 10 * K" for K :: int
      using that by linarith
    from 1(3) have "n div 10 < 10 ^ k'" by (intro step) (simp add: k)

    from 1(1) [OF False pos this] show ?thesis using False by (subst digits.simps) (simp add: k)
  qed
qed

lemma candidate_cases:
  "candidate x d j = Some (s, n) \<Longrightarrow>
     n = d \<or> (s = 1 \<and> n = d + 1 \<and> roundtrips (10 ^ d) x)"
  by (auto simp: candidate_def Let_def split: if_splits)

lemma shortest_cases:
  "shortest x d j = (s, n) \<Longrightarrow> n = d \<or> (s = 1 \<and> n = d + 1 \<and> roundtrips (10 ^ d) x)"
proof (induction x d j rule: shortest.induct)
  case (1 x d j)
  show ?case
  proof (cases "candidate x d j")
    case None
    with 1 show ?thesis by (subst (asm) (2) shortest.simps) (auto split: if_splits)
  next
    case (Some r)
    with 1(2) have "candidate x d j = Some (s, n)" by (subst (asm) shortest.simps) simp
    then show ?thesis by (rule candidate_cases)
  qed
qed


lemma is_double_10_21: "is_double (10 ^ 21)"
  by (rule is_double_intro [of _ 476837158203125 21]) simp_all

lemma decimal_plain:
  assumes "x < 10 ^ 21"
  shows "\<exists>s k. decimal x = digits s @ replicate k CHR ''0''"
proof -
  define d where "d = length (digits x)"
  obtain s n where sn: "shortest x d (d - 1) = (s, n)" by (cases "shortest x d (d - 1)")
  have d: "d \<le> 21" using assms by (simp add: d_def length_digits)
  have "n \<le> 21"
  proof (rule ccontr)
    assume "\<not> n \<le> 21"
    with shortest_cases [OF sn] d have "d = 21" and "roundtrips (10 ^ d) x" by auto
    then have "round_double (of_int (10 ^ 21)) = Finite (of_int x)" by (simp add: roundtrips_def)
    moreover have "round_double (of_int (10 ^ 21)) = Finite (10 ^ 21)"
      using round_double_exact [OF is_double_10_21] by simp
    ultimately have "(of_int x :: rat) = of_int (10 ^ 21)" by simp
    then have "x = 10 ^ 21" by (simp only: of_int_eq_iff)
    with assms show False by simp
  qed
  then have "decimal x = digits s @ replicate (n - length (digits s)) CHR ''0''"
    unfolding decimal_def Let_def d_def [symmetric] sn by simp
  then show ?thesis by blast
qed

lemma decimal_digits:
  assumes "x < 10 ^ 21"
  shows "list_all is_digit (decimal x)" and "decimal x \<noteq> []"
proof -
  from decimal_plain [OF assms] obtain s k where "decimal x = digits s @ replicate k CHR ''0''"
    by blast
  moreover have "list_all is_digit (replicate k CHR ''0'')"
    by (simp add: list_all_iff is_digit_def)
  ultimately show "list_all is_digit (decimal x)" and "decimal x \<noteq> []"
    by (simp_all add: digits_all_digit digits_nonempty)
qed

lemma Number_toString_digits:
  assumes "0 \<le> n" and "n < 10 ^ 21"
  shows "list_all is_digit (Number_toString (Finite n))"
    and "Number_toString (Finite n) \<noteq> []"
  using assms decimal_digits [of n]
  by (simp_all add: Number_toString_def is_digit_def)



lemma remainder_nonneg: "0 \<le> m \<Longrightarrow> remainder m 60 = m - 60 * of_int \<lfloor>m / 60\<rfloor>"
  by (simp add: remainder_def towards_zero_def)


lemma remainder_range_nonneg:
  assumes "0 \<le> m" shows "0 \<le> remainder m 60" and "remainder m 60 < 60"
proof -
  have "of_int \<lfloor>m / 60\<rfloor> * 60 \<le> m" by (rule floor_divide_lower) simp
  with assms show "0 \<le> remainder m 60" by (simp add: remainder_nonneg)
  have "m < (of_int \<lfloor>m / 60\<rfloor> + 1) * 60" by (rule floor_divide_upper) simp
  with assms show "remainder m 60 < 60" by (simp add: remainder_nonneg algebra_simps)
qed





lemma is_double_2_1019: "is_double (2 ^ 1019)"
  by (rule is_double_intro [of _ "2 ^ 48" 971]) simp_all

lemma is_double_minus: "is_double q \<Longrightarrow> is_double (- q)"
  by (simp add: is_double_iff rounded_minus)

lemma quotient_finite:
  assumes "is_double q"
  shows "\<exists>r. round_double (q / 60) = Finite r \<and> \<bar>r - q / 60\<bar> \<le> ulp (q / 60) / 2"
proof -
  from assms have "\<bar>q\<bar> < 2 ^ 1024" by (simp add: is_double_iff)
  then have "- (2 ^ 1019) \<le> q / 60" "q / 60 \<le> 2 ^ 1019" by simp_all
  from round_double_between [OF is_double_minus [OF is_double_2_1019] is_double_2_1019 this]
  obtain r where r: "round_double (q / 60) = Finite r" by blast
  then have "r = rounded (q / 60)" by (simp add: round_double_rounded split: if_splits)
  with r rounded_error [of "q / 60"] show ?thesis by simp
qed

lemma formatDowntime_Finite:
  assumes "round_double (q / 60) = Finite r"
  shows "formatDowntime (Finite q) =
     (if 0 < \<lfloor>r\<rfloor>
      then Number_toString (Finite \<lfloor>r\<rfloor>) @ ''h '' @
           Number_toString (Finite (round (remainder q 60))) @ ''m''
      else Number_toString (Finite (round (remainder q 60))) @ ''m'')"
  using assms
  by (simp add: formatDowntime_def divide_by_60_def remainder_by_60_def Math_floor_def
      Math_round_def greater_zero_def round_def)




lemma roundtrips_small: "\<bar>v\<bar> < 2 ^ 53 \<Longrightarrow> roundtrips v x \<longleftrightarrow> v = x"
  using round_double_exact [OF is_double_of_int [of v]] by (simp add: roundtrips_def)

lemma round_double_Finite: "\<bar>rounded q\<bar> < 2 ^ 1024 \<Longrightarrow> round_double q = Finite (rounded q)"
  by (auto simp: round_double_rounded)

lemma round_double_eval:
  assumes "2 powi e \<le> \<bar>y\<bar>" and "\<bar>y\<bar> < 2 powi (e + 1)" and "- 1022 \<le> e" and "e < 1023"
    and "round_half_even (y / 2 powi (e - 52)) = m"
  shows "round_double y = Finite (2 powi (e - 52) * of_int m)"
proof -
  have e: "exponent y = e" using assms(1,2) by (rule exponent_unique)
  have u: "ulp y = 2 powi (e - 52)" using assms(3) by (simp add: ulp_def e max_def)
  have r: "rounded y = 2 powi (e - 52) * of_int m" by (simp add: rounded_def u assms(5))
  have "\<bar>rounded y - y\<bar> \<le> ulp y / 2" by (rule rounded_error)
  then have "\<bar>rounded y\<bar> \<le> \<bar>y\<bar> + ulp y / 2" by linarith
  also have "\<dots> < 2 powi (e + 1) + 2 powi (e - 52) / 2" using assms(2) by (simp add: u)
  also have "\<dots> \<le> 2 powi (e + 1) + 2 powi (e + 1)"
  proof -
    have "(2::rat) powi (e - 52) \<le> 2 powi (e + 1)" by (simp only: two_powi_le_iff)
    moreover have "(0::rat) < 2 powi (e - 52)" by simp
    ultimately show ?thesis by linarith
  qed
  also have "\<dots> = 2 powi (e + 2)"
    using two_powi_split [of "e + 1" "e + 2"] by simp
  also have "\<dots> \<le> 2 powi 1024" using assms(4) by (simp only: two_powi_le_iff)
  finally have "\<bar>rounded y\<bar> < 2 ^ 1024" by simp
  then have "round_double y = Finite (rounded y)" by (rule round_double_Finite)
  then show ?thesis by (simp only: r)
qed

lemma floor_numeral_quotient:
  "\<lfloor>(numeral a :: rat) / numeral b\<rfloor> = numeral a div numeral b"
  using floor_divide_of_int_eq [of "numeral a" "numeral b", where ?'a = rat] by simp


lemma length_digits_pos: "0 < length (digits n)"
  using digits_nonempty [of n] by simp

lemma digits_lower: "0 < x \<Longrightarrow> 10 ^ (length (digits x) - 1) \<le> x"
proof (induction x rule: digits.induct)
  case (1 x)
  show ?case
  proof (cases "x < 10")
    case True
    with 1(2) show ?thesis by (subst digits.simps) simp
  next
    case False
    then have pos: "0 < x div 10" by simp
    have len: "length (digits x) = Suc (length (digits (x div 10)))"
      using False by (subst digits.simps) simp
    obtain l where l: "length (digits (x div 10)) = Suc l"
      using length_digits_pos [of "x div 10"] by (cases "length (digits (x div 10))") simp_all
    from 1(1) [OF False pos] have "10 ^ l \<le> x div 10" by (simp add: l)
    then have "10 * 10 ^ l \<le> x" by linarith
    then show ?thesis by (simp add: len l)
  qed
qed

lemma digits_times_10: "0 < y \<Longrightarrow> digits (y * 10) = digits y @ ''0''"
  by (subst digits.simps) (simp add: digit_char_def)

lemma digits_times_power: "0 < y \<Longrightarrow> digits (y * 10 ^ i) = digits y @ replicate i CHR ''0''"
proof (induction i)
  case 0
  then show ?case by simp
next
  case (Suc i)
  have "y * 10 ^ Suc i = y * 10 ^ i * 10" by simp
  then have "digits (y * 10 ^ Suc i) = digits (y * 10 ^ i * 10)" by (rule arg_cong)
  also have "\<dots> = digits (y * 10 ^ i) @ ''0''"
    using Suc.prems by (intro digits_times_10) simp
  finally show ?case using Suc by (simp add: replicate_append_same)
qed

lemma candidate_small:
  assumes "0 < x" and "x < 2 ^ 52" and "j < length (digits x)"
  shows "candidate x d j = (if 10 ^ j dvd x then Some (x div 10 ^ j, d) else None)"
proof -
  define p :: int where "p = 10 ^ j"
  have p: "0 < p" by (simp add: p_def)
  have "(10::int) ^ j \<le> 10 ^ (length (digits x) - 1)"
    using assms(3) by (intro power_increasing) simp_all
  then have px: "p \<le> x" unfolding p_def using digits_lower [OF assms(1)] by (rule order_trans)
  have eq: "x div p * p + x mod p = x" by simp
  have md: "0 \<le> x mod p" "x mod p < p" using p by simp_all
  have "0 \<le> x div p" using p assms(1) by (simp add: pos_imp_zdiv_nonneg_iff)
  then have nn: "0 \<le> x div p * p" using p by simp
  have lo: "x div p * p \<le> x" using eq md(1) by linarith
  have expand: "(x div p + 1) * p = x div p * p + p" by (simp add: algebra_simps)
  have hi: "x < (x div p + 1) * p" "(x div p + 1) * p \<le> x + p"
    unfolding expand using eq md lo by linarith+
  have small: "\<bar>x div p * p\<bar> < 2 ^ 53" "\<bar>(x div p + 1) * p\<bar> < 2 ^ 53"
    using lo nn hi px assms(1,2) by simp_all
  have lo_ok: "roundtrips (x div p * p) x \<longleftrightarrow> p dvd x"
    unfolding roundtrips_small [OF small(1)]
    by (metis dvd_div_mult_self dvd_triv_right)
  have hi_ok: "\<not> roundtrips ((x div p + 1) * p) x"
    unfolding roundtrips_small [OF small(2)] using hi(1) by simp
  show ?thesis
    unfolding candidate_def Let_def p_def [symmetric]
    using lo_ok hi_ok by simp
qed

lemma shortest_small:
  assumes "0 < x" and "x < 2 ^ 52" and "j < length (digits x)"
  shows "\<exists>i. 10 ^ i dvd x \<and> shortest x d j = (x div 10 ^ i, d)"
  using assms
proof (induction x d j rule: shortest.induct)
  case (1 x d j)
  note cand = candidate_small [OF 1(2,3,4), of d]
  show ?case
  proof (cases "(10::int) ^ j dvd x")
    case True
    then have "shortest x d j = (x div 10 ^ j, d)"
      by (subst shortest.simps) (simp add: cand)
    with True show ?thesis by blast
  next
    case False
    then have none: "candidate x d j = None" by (simp add: cand)
    have j: "j \<noteq> 0" using False by (cases j) simp_all
    then have "j - 1 < length (digits x)" using 1(4) by simp
    from 1(1) [OF none j 1(2,3) this] obtain i where
      "10 ^ i dvd x" "shortest x d (j - 1) = (x div 10 ^ i, d)" by blast
    moreover have "shortest x d j = shortest x d (j - 1)"
      by (subst shortest.simps) (simp add: none j)
    ultimately show ?thesis by auto
  qed
qed

lemma decimal_small:
  assumes "0 < x" and "x < 2 ^ 52"
  shows "decimal x = digits x"
proof -
  define d where "d = length (digits x)"
  have "d - 1 < length (digits x)" using length_digits_pos [of x] by (simp add: d_def)
  from shortest_small [OF assms this, of d] obtain i where
    i: "10 ^ i dvd x" "shortest x d (d - 1) = (x div 10 ^ i, d)" by blast
  define y where "y = x div 10 ^ i"
  have x: "x = y * 10 ^ i" using i(1) by (simp add: y_def)
  have y: "0 < y" using assms(1) x by (simp add: zero_less_mult_iff)
  have dx: "digits x = digits y @ replicate i CHR ''0''"
    unfolding x using y by (rule digits_times_power)
  have "x < 10 ^ 21" using assms(2) by simp
  then have "d \<le> 21" by (simp add: d_def length_digits)
  moreover have "d - length (digits y) = i" by (simp add: d_def dx)
  ultimately show ?thesis
    unfolding decimal_def Let_def d_def [symmetric] i(2) y_def [symmetric]
    by (simp add: dx)
qed

lemma Number_toString_small:
  "0 \<le> n \<Longrightarrow> n < 2 ^ 52 \<Longrightarrow> Number_toString (Finite n) = digits n"
  using decimal_small [of n]
  by (cases "n = 0") (simp_all add: Number_toString_def digits.simps digit_char_def)




lemma is_double_0: "is_double 0"
  using is_double_of_int [of 0] by simp




lemma is_double_6e22: "is_double 60000000000000000000000"
  by (rule is_double_intro [of _ 7152557373046875 23]) simp_all

lemma decimal_10_21: "decimal 1000000000000000000000 = ''1e+21''"
proof -
  have one: "roundtrips 1000000000000000000000 1000000000000000000000"
    using round_double_exact [OF is_double_10_21] by (simp add: roundtrips_def)
  have "is_double 2000000000000000000000"
    by (rule is_double_intro [of _ 476837158203125 22]) simp_all
  then have two: "\<not> roundtrips 2000000000000000000000 1000000000000000000000"
    using round_double_exact [of 2000000000000000000000] by (simp add: roundtrips_def)
  have len: "length (digits 1000000000000000000000) = 22"
    by (simp add: digits.simps)
  have cand: "candidate 1000000000000000000000 22 21 = Some (1, 22)"
    by (simp add: candidate_def Let_def one two)
  have sh: "shortest 1000000000000000000000 22 21 = (1, 22)"
    by (subst shortest.simps) (simp add: cand)
  have "digits 1 = ''1''" "digits 21 = ''21''" by (simp_all add: digits.simps digit_char_def)
  then show ?thesis
    by (simp add: decimal_def len sh)
qed

lemma formatDowntime_6e22:
  "formatDowntime (Finite 60000000000000000000000) = ''1e+21h 0m''"
proof -
  have "round_double (60000000000000000000000 / 60) = Finite 1000000000000000000000"
    using round_double_exact [OF is_double_10_21] by simp
  from formatDowntime_Finite [OF this] show ?thesis
    by (simp add: remainder_def towards_zero_def Number_toString_def decimal_10_21)
qed

lemma not_matches_6e22:
  "\<not> matches_hm ''1e+21h 0m''" "\<not> matches_m ''1e+21h 0m''"
  by (simp_all add: matches_hm_def matches_m_def is_digit_def)

lemma grid_below:
  assumes "is_double q" and "2 powi e \<le> \<bar>q\<bar>" and "- 1022 \<le> e"
    and "q < of_int M * 2 powi (e - 52)"
  shows "q \<le> of_int M * 2 powi (e - 52) - 2 powi (e - 52)"
proof -
  from is_double_grid [OF assms(1-3)] obtain m where m: "q = of_int m * 2 powi (e - 52)" ..
  have pos: "(0::rat) < 2 powi (e - 52)" by simp
  from assms(4) have "(of_int m :: rat) < of_int M"
    unfolding m using pos by (simp only: mult_less_cancel_right_pos)
  then have "m \<le> M - 1" by simp
  then have "(of_int m :: rat) \<le> of_int (M - 1)" by (simp only: of_int_le_iff)
  then have "of_int m * 2 powi (e - 52) \<le> (of_int (M - 1) :: rat) * 2 powi (e - 52)"
    using pos by (simp only: mult_le_cancel_right_pos)
  then show ?thesis by (simp add: m algebra_simps)
qed

lemma ulp_le:
  assumes "y \<noteq> 0" and "\<bar>y\<bar> < 2 powi (e + 1)" and "- 1022 \<le> e"
  shows "ulp y \<le> 2 powi (e - 52)"
proof -
  from exponent_le [OF assms(1,2)] assms(3) have "max (exponent y) (- 1022) - 52 \<le> e - 52"
    by simp
  then show ?thesis unfolding ulp_def by (simp only: two_powi_le_iff)
qed

text \<open>
  Below \<open>2^53\<close> the floor of the double quotient is the floor of the exact quotient: the
  rounding of the quotient never reaches the next integer.
\<close>

lemma quotient_floor_exact:
  assumes "is_double q" and "0 \<le> q" and "q < 2 ^ 53"
    and r: "round_double (q / 60) = Finite r"
  shows "\<lfloor>r\<rfloor> = \<lfloor>q / 60\<rfloor>"
proof -
  define y where "y = q / 60"
  define k where "k = \<lfloor>y\<rfloor>"
  have y0: "0 \<le> y" using assms(2) by (simp add: y_def)
  have k: "of_int k \<le> y" "y < of_int k + 1" "0 \<le> k"
    using y0 by (simp_all add: k_def) linarith
  have "y < 2 ^ 53" using assms(2,3) by (simp add: y_def)
  then have "k < 2 ^ 53" using k(1) by (simp add: k_def floor_less_iff)
  then have dk: "is_double (of_int k)" using k(3) by (intro is_double_of_int) simp
  have rr: "r = rounded y"
    using r by (simp add: round_double_rounded y_def split: if_splits)
  have lower: "of_int k \<le> r"
    unfolding rr using k(1,3) dk by (intro double_le_rounded) simp_all
  have upper: "r < of_int k + 1"
  proof (cases "q < 30")
    case True
    have "is_double (1 / 2)" using is_double_intro [of "1 / 2" 1 "- 1"] by simp
    moreover have "y \<le> 1 / 2" using True by (simp add: y_def)
    ultimately have "rounded y \<le> 1 / 2" using y0 by (intro rounded_le_double)
    moreover have "(0::rat) \<le> of_int k" using k(3) by simp
    ultimately show ?thesis unfolding rr by linarith
  next
    case False
    define e where "e = exponent q"
    define w :: rat where "w = 2 powi (e - 52)"
    have q0: "q \<noteq> 0" and q30: "30 \<le> q" using False by simp_all
    have eb: "2 powi e \<le> q" "q < 2 powi (e + 1)"
      using exponent_bounds [OF q0] assms(2) by (simp_all add: e_def)
    have "(2::rat) powi 4 \<le> \<bar>q\<bar>" using q30 by simp
    then have e4: "4 \<le> e" unfolding e_def by (rule exponent_ge)
    have "\<bar>q\<bar> < 2 powi (52 + 1)" using assms(2,3) by simp
    with q0 have e52: "e \<le> 52" unfolding e_def by (rule exponent_le)
    have wpos: "0 < w" by (simp add: w_def)
    have "(2::rat) powi 0 = 2 powi (e - 52) * of_int (2 ^ nat (0 - (e - 52)))"
      using e52 by (intro two_powi_split) simp
    then have one: "(1::rat) = w * of_int (2 ^ nat (52 - e))" by (simp add: w_def)
    have bound: "60 * (of_int k + 1) = of_int (60 * (k + 1) * 2 ^ nat (52 - e)) * w"
    proof -
      have "60 * (of_int k + 1) = 60 * (of_int k + 1) * (w * of_int (2 ^ nat (52 - e)))"
        using one by simp
      then show ?thesis by (simp add: algebra_simps)
    qed
    have "q < 60 * (of_int k + 1)" using k(2) by (simp add: y_def)
    then have "q < of_int (60 * (k + 1) * 2 ^ nat (52 - e)) * 2 powi (e - 52)"
      by (simp only: bound w_def)
    moreover have "2 powi e \<le> \<bar>q\<bar>" using eb(1) assms(2) by simp
    moreover have "- 1022 \<le> e" using e4 by simp
    ultimately have "q \<le> of_int (60 * (k + 1) * 2 ^ nat (52 - e)) * 2 powi (e - 52)
        - 2 powi (e - 52)"
      using assms(1) by (intro grid_below)
    then have "q \<le> 60 * (of_int k + 1) - w" by (simp only: bound w_def [symmetric])
    then have yle: "y \<le> of_int k + 1 - w / 60" by (simp add: y_def)
    have ynz: "y \<noteq> 0" using q30 by (simp add: y_def)
    have "(2::rat) powi (e + 1) = 2 powi (e - 4) * of_int (2 ^ nat (e + 1 - (e - 4)))"
      by (intro two_powi_split) simp
    then have "(2::rat) powi (e + 1) = 32 * 2 powi (e - 4)" by simp
    with eb(2) have "q < 32 * 2 powi (e - 4)" by simp
    then have "\<bar>y\<bar> < 2 powi (e - 5 + 1)" using y0 by (simp add: y_def)
    from ulp_le [OF ynz this] e4 have "ulp y \<le> 2 powi (e - 5 - 52)" by simp
    moreover have "w = 2 powi (e - 5 - 52) * of_int (2 ^ nat (e - 52 - (e - 5 - 52)))"
      unfolding w_def by (intro two_powi_split) simp
    then have "w = 32 * 2 powi (e - 5 - 52)" by simp
    ultimately have u: "ulp y \<le> w / 32" by simp
    have "\<bar>rounded y - y\<bar> \<le> ulp y / 2" by (rule rounded_error)
    with u have "rounded y \<le> y + w / 64" by linarith
    with yle wpos show ?thesis unfolding rr by linarith
  qed
  from lower upper have "\<lfloor>r\<rfloor> = k" by (simp add: floor_eq_iff)
  then show ?thesis by (simp add: k_def y_def)
qed

lemma quotient_below_60:
  assumes "is_double q" and "0 \<le> q" and "q < 60"
    and "round_double (q / 60) = Finite r"
  shows "\<lfloor>r\<rfloor> = 0"
proof -
  have "q < 2 ^ 53" using assms(3) by simp
  from quotient_floor_exact [OF assms(1,2) this assms(4)] have "\<lfloor>r\<rfloor> = \<lfloor>q / 60\<rfloor>" .
  moreover have "\<lfloor>q / 60\<rfloor> = 0" using assms(2,3) by (simp add: floor_eq_iff)
  ultimately show ?thesis by simp
qed

lemma quotient_from_60:
  assumes "is_double q" and "60 \<le> q" and "q < 60000000000000000000000"
  shows "\<exists>r. round_double (q / 60) = Finite r \<and> 0 < \<lfloor>r\<rfloor> \<and> \<lfloor>r\<rfloor> < 10 ^ 21"
proof -
  have top: "q \<le> 60000000000000000000000 - 8388608"
  proof (cases "2 ^ 75 \<le> q")
    case True
    have "q < of_int 7152557373046875 * 2 powi (75 - 52)" using assms(3) by simp
    moreover have "2 powi 75 \<le> \<bar>q\<bar>" using True by simp
    ultimately have "q \<le> of_int 7152557373046875 * 2 powi (75 - 52) - 2 powi (75 - 52)"
      using assms(1) by (intro grid_below) simp_all
    then show ?thesis by simp
  next
    case False
    then show ?thesis by simp
  qed
  have a: "is_double 1" using is_double_of_int [of 1] by simp
  have b: "is_double (10 ^ 21 - 131072)"
    by (rule is_double_intro [of _ 7629394531249999 17]) simp_all
  have "1 \<le> q / 60" using assms(2) by simp
  moreover have "q / 60 \<le> 10 ^ 21 - 131072" using top by simp
  ultimately obtain r where r: "round_double (q / 60) = Finite r" "1 \<le> r"
      "r \<le> 10 ^ 21 - 131072"
    using round_double_between [OF a b] by blast
  have "0 < \<lfloor>r\<rfloor>" using r(2) by simp
  moreover have "r < of_int (10 ^ 21)" using r(3) by simp
  then have "\<lfloor>r\<rfloor> < 10 ^ 21" by (simp only: floor_less_iff)
  ultimately show ?thesis using r(1) by blast
qed

lemma minutes_range:
  assumes "0 \<le> q"
  shows "0 \<le> round (remainder q 60)" and "round (remainder q 60) < 10 ^ 21"
proof -
  note rg = remainder_range_nonneg [OF assms]
  show "0 \<le> round (remainder q 60)" using rg(1) by (simp add: round_def)
  have "remainder q 60 + 1 / 2 < of_int 61" using rg(2) by simp
  then have "round (remainder q 60) < 61" unfolding round_def by (simp only: floor_less_iff)
  then show "round (remainder q 60) < 10 ^ 21" by simp
qed

lemma not_digit_h: "\<not> is_digit CHR ''h''"
  by (simp add: is_digit_def)

lemma not_digit_m: "\<not> is_digit CHR ''m''"
  by (simp add: is_digit_def)

lemma not_digit_space: "\<not> is_digit CHR '' ''"
  by (simp add: is_digit_def)

lemma not_digit_minus: "\<not> is_digit CHR ''-''"
  by (simp add: is_digit_def)

lemma matches_m_shape:
  "list_all is_digit b \<Longrightarrow> b \<noteq> [] \<Longrightarrow> matches_m (b @ ''m'')"
  by (simp add: matches_m_def)

lemma matches_hm_shape:
  assumes "list_all is_digit a" and "a \<noteq> []" and "list_all is_digit b" and "b \<noteq> []"
  shows "matches_hm (a @ ''h '' @ b @ ''m'')"
proof -
  have "takeWhile is_digit (a @ CHR ''h'' # CHR '' '' # b @ ''m'') = a"
    "dropWhile is_digit (a @ CHR ''h'' # CHR '' '' # b @ ''m'') = CHR ''h'' # CHR '' '' # b @ ''m''"
    using assms(1) by (simp_all add: list_all_iff not_digit_h)
  then show ?thesis
    using assms(2) matches_m_shape [OF assms(3,4)] by (simp add: matches_hm_def)
qed

lemma not_matches_hm_shape:
  assumes "list_all is_digit b"
  shows "\<not> matches_hm (b @ ''m'')"
proof -
  have "dropWhile is_digit (b @ ''m'') = ''m''"
    using assms by (simp add: list_all_iff not_digit_m)
  then show ?thesis by (simp add: matches_hm_def)
qed

lemma not_matches_m_shape: "\<not> matches_m (a @ ''h '' @ b @ ''m'')"
  by (simp add: matches_m_def not_digit_space)

lemma no_minus: "list_all is_digit a \<Longrightarrow> CHR ''-'' \<notin> set a"
  using not_digit_minus by (auto simp: list_all_iff)

lemma formatDowntime_shape_lemma:
  assumes "is_double q" and "0 \<le> q" and "q < 60000000000000000000000"
  shows "CHR ''-'' \<notin> set (formatDowntime (Finite q))
    \<and> (matches_hm (formatDowntime (Finite q)) \<longleftrightarrow> 60 \<le> q)
    \<and> (matches_m (formatDowntime (Finite q)) \<longleftrightarrow> q < 60)"
proof -
  define b where "b = Number_toString (Finite (round (remainder q 60)))"
  have b: "list_all is_digit b" "b \<noteq> []"
    unfolding b_def using minutes_range [OF assms(2)] by (simp_all add: Number_toString_digits)
  show ?thesis
  proof (cases "60 \<le> q")
    case True
    from quotient_from_60 [OF assms(1) True assms(3)] obtain r where
      r: "round_double (q / 60) = Finite r" "0 < \<lfloor>r\<rfloor>" "\<lfloor>r\<rfloor> < 10 ^ 21" by blast
    define a where "a = Number_toString (Finite \<lfloor>r\<rfloor>)"
    have a: "list_all is_digit a" "a \<noteq> []"
      unfolding a_def using r(2,3) by (simp_all add: Number_toString_digits)
    define s where "s = formatDowntime (Finite q)"
    have s: "s = a @ ''h '' @ b @ ''m''"
      unfolding s_def a_def b_def using formatDowntime_Finite [OF r(1)] r(2) by simp
    have "matches_hm s" unfolding s using a b by (rule matches_hm_shape)
    moreover have "\<not> matches_m s" unfolding s by (rule not_matches_m_shape)
    moreover have "CHR ''-'' \<notin> set s" using no_minus [OF a(1)] no_minus [OF b(1)] by (simp add: s)
    ultimately show ?thesis using True by (simp add: s_def)
  next
    case False
    then have less: "q < 60" by simp
    from quotient_finite [OF assms(1)] obtain r where r: "round_double (q / 60) = Finite r"
      by blast
    from quotient_below_60 [OF assms(1,2) less r] have fl: "\<lfloor>r\<rfloor> = 0" .
    define s where "s = formatDowntime (Finite q)"
    have s: "s = b @ ''m''"
      unfolding s_def b_def using formatDowntime_Finite [OF r] fl by simp
    have "matches_m s" unfolding s using b by (rule matches_m_shape)
    moreover have "\<not> matches_hm s" unfolding s using b(1) by (rule not_matches_hm_shape)
    moreover have "CHR ''-'' \<notin> set s" using no_minus [OF b(1)] by (simp add: s)
    ultimately show ?thesis using less by (simp add: s_def)
  qed
qed

lemma mantissa_range:
  assumes "0 < y"
  shows "0 \<le> round_half_even (y / ulp y)" and "round_half_even (y / ulp y) \<le> 2 ^ 53"
proof -
  have "of_int 0 \<le> y / ulp y" using assms by simp
  then show "0 \<le> round_half_even (y / ulp y)" by (rule round_half_even_lower)
  define g where "g = max (exponent y) (- 1022)"
  have u: "ulp y = 2 powi (g - 52)" by (simp add: ulp_def g_def)
  from assms have "y \<noteq> 0" by simp
  from exponent_bounds(2) [OF this] assms have "y < 2 powi (exponent y + 1)" by simp
  also have "\<dots> \<le> 2 powi (g + 1)" by (simp add: two_powi_le_iff g_def)
  finally have "y < 2 powi (g + 1)" .
  also have "\<dots> = ulp y * of_int (2 ^ 53)"
    using two_powi_split [of "g - 52" "g + 1"] by (simp add: u)
  finally have "y / ulp y \<le> of_int (2 ^ 53)"
    by (simp add: pos_divide_le_eq mult.commute less_imp_le)
  then show "round_half_even (y / ulp y) \<le> 2 ^ 53" by (rule round_half_even_upper)
qed



lemma formatDowntime_rounding_example:
  "formatDowntime (Finite 67553994410557496) = ''1125899906842625h 56m''"
proof -
  have "round_half_even (67553994410557496 / 60 / 2 powi (50 - 52)) = 4503599627370500"
    by (simp add: round_half_even_def Let_def floor_numeral_quotient)
  from round_double_eval [of 50 "67553994410557496 / 60", OF _ _ _ _ this]
  have q: "round_double (67553994410557496 / 60) = Finite 1125899906842625" by simp
  have "remainder 67553994410557496 60 = 56"
    by (simp add: remainder_def towards_zero_def floor_numeral_quotient)
  moreover have "round (56::rat) = 56" by simp
  moreover have "digits 1125899906842625 = ''1125899906842625''" "digits 56 = ''56''"
    by (simp_all add: digits.simps digit_char_def)
  ultimately show ?thesis
    using formatDowntime_Finite [OF q] by (simp add: Number_toString_small)
qed

lemma is_double_integer:
  assumes "is_double q" and "2 ^ 52 \<le> \<bar>q\<bar>"
  shows "\<exists>m. q = of_int m"
proof -
  have "2 powi 52 \<le> \<bar>q\<bar>" using assms(2) by simp
  from is_double_grid [OF assms(1) this] obtain m where "q = of_int m * 2 powi (52 - 52)"
    by auto
  then have "q = of_int m" by simp
  then show ?thesis ..
qed

lemma is_double_floor:
  assumes "is_double q"
  shows "is_double (of_int \<lfloor>q\<rfloor>)"
proof (cases "2 ^ 52 \<le> \<bar>q\<bar>")
  case True
  from is_double_integer [OF assms True] obtain m where "q = of_int m" ..
  then show ?thesis using assms by simp
next
  case False
  then have "of_int (- (2 ^ 52)) \<le> q" "q < of_int (2 ^ 52)" by simp_all
  then have "- (2 ^ 52) \<le> \<lfloor>q\<rfloor>" "\<lfloor>q\<rfloor> < 2 ^ 52"
    by (simp_all only: le_floor_iff floor_less_iff)
  moreover define n where "n = \<lfloor>q\<rfloor>"
  ultimately have "- (2 ^ 52) \<le> n" "n < 2 ^ 52" by simp_all
  then have "\<bar>n\<bar> < 2 ^ 53" by simp
  then show ?thesis unfolding n_def by (rule is_double_of_int)
qed

lemma is_double_round:
  assumes "is_double q"
  shows "is_double (of_int \<lfloor>q + 1 / 2\<rfloor>)"
proof (cases "2 ^ 52 \<le> \<bar>q\<bar>")
  case True
  from is_double_integer [OF assms True] obtain m where m: "q = of_int m" ..
  have "\<lfloor>q + 1 / 2\<rfloor> = m" unfolding m by (simp add: floor_eq_iff)
  then show ?thesis using assms m by simp
next
  case False
  then have "of_int (- (2 ^ 52)) \<le> q + 1 / 2" "q + 1 / 2 < of_int (2 ^ 52 + 1)" by simp_all
  then have "- (2 ^ 52) \<le> \<lfloor>q + 1 / 2\<rfloor>" "\<lfloor>q + 1 / 2\<rfloor> < 2 ^ 52 + 1"
    by (simp_all only: le_floor_iff floor_less_iff)
  moreover define n where "n = \<lfloor>q + 1 / 2\<rfloor>"
  ultimately have "- (2 ^ 52) \<le> n" "n < 2 ^ 52 + 1" by simp_all
  then have "\<bar>n\<bar> < 2 ^ 53" by simp
  then show ?thesis unfolding n_def by (rule is_double_of_int)
qed

lemma towards_zero_minus: "towards_zero (- x) = - towards_zero x"
  by (simp add: towards_zero_def ceiling_def)

lemma remainder_minus: "remainder (- q) 60 = - remainder q 60"
  by (simp add: remainder_def towards_zero_minus)

lemma is_double_remainder_nonneg:
  assumes "is_double q" and "0 \<le> q"
  shows "is_double (remainder q 60)"
proof (cases "q = 0")
  case True
  then show ?thesis using is_double_0 by (simp add: remainder_def towards_zero_def)
next
  case False
  define k where "k = \<lfloor>q / 60\<rfloor>"
  have rem: "remainder q 60 = q - 60 * of_int k" using assms(2) by (simp add: remainder_nonneg k_def)
  note rg = remainder_range_nonneg [OF assms(2)]
  have k0: "0 \<le> k" using assms(2) by (simp add: k_def)
  show ?thesis
  proof (cases "2 ^ 52 \<le> q")
    case True
    then have "2 ^ 52 \<le> \<bar>q\<bar>" by simp
    from is_double_integer [OF assms(1) this] obtain m where m: "q = of_int m" ..
    have "q - 60 * of_int k = of_int (m - 60 * k)" by (simp add: m)
    then have eq: "remainder q 60 = of_int (m - 60 * k)" by (simp only: rem)
    from rg have "(of_int (m - 60 * k) :: rat) < of_int 60" "(of_int 0 :: rat) \<le> of_int (m - 60 * k)"
      by (simp_all add: eq)
    then have "m - 60 * k < 60" "0 \<le> m - 60 * k" by (simp_all only: of_int_less_iff of_int_le_iff)
    then have "\<bar>m - 60 * k\<bar> < 2 ^ 53" by simp
    then show ?thesis unfolding eq by (rule is_double_of_int)
  next
    case False
    define g where "g = max (exponent q) (- 1022)"
    have q52: "\<bar>q\<bar> < 2 powi (51 + 1)" using False assms(2) by simp
    from exponent_le [OF \<open>q \<noteq> 0\<close> this] have g52: "g - 52 \<le> 0" by (simp add: g_def)
    have u: "ulp q = 2 powi (g - 52)" by (simp add: ulp_def g_def)
    from is_double_multiple [OF assms(1)] obtain m where m: "q = ulp q * of_int m" ..
    have "(2::rat) powi 0 = 2 powi (g - 52) * of_int (2 ^ nat (0 - (g - 52)))"
      using g52 by (intro two_powi_split)
    then have one: "(1::rat) = 2 powi (g - 52) * of_int (2 ^ nat (52 - g))" by simp
    define M where "M = m - 60 * k * 2 ^ nat (52 - g)"
    have "q - 60 * of_int k = 2 powi (g - 52) * of_int m - 60 * of_int k * 1"
      using m by (simp add: u)
    also have "\<dots> = 2 powi (g - 52) * of_int m
        - 60 * of_int k * (2 powi (g - 52) * of_int (2 ^ nat (52 - g)))"
      by (simp only: one [symmetric])
    also have "\<dots> = of_int M * 2 powi (g - 52)" by (simp add: M_def algebra_simps)
    finally have eq: "remainder q 60 = of_int M * 2 powi (g - 52)" by (simp add: rem)
    have pos: "(0::rat) < 2 powi (g - 52)" by simp
    have "remainder q 60 \<le> q" using k0 by (simp add: rem)
    then have "of_int M * 2 powi (g - 52) \<le> (of_int m :: rat) * 2 powi (g - 52)"
      using m by (simp add: eq u mult.commute)
    then have "(of_int M :: rat) \<le> of_int m" using pos by (simp only: mult_le_cancel_right_pos)
    then have Mm: "M \<le> m" by (simp only: of_int_le_iff)
    have "(0::rat) \<le> of_int M * 2 powi (g - 52)" using rg(1) by (simp add: eq)
    then have "(0::rat) \<le> of_int M" using pos by (simp add: zero_le_mult_iff)
    then have M0: "0 \<le> M" by simp
    have "rounded q = q" using assms(1) by (simp add: is_double_iff)
    then have "m = round_half_even (q / ulp q)"
      using m by (simp add: rounded_def)
        (metis mult_cancel_left of_int_eq_iff ulp_nonzero)
    then have "m \<le> 2 ^ 53" using mantissa_range(2) [of q] assms(2) False \<open>q \<noteq> 0\<close> by simp
    have "m \<noteq> 2 ^ 53"
    proof
      assume "m = 2 ^ 53"
      then have "q = 2 powi (g - 52) * of_int (2 ^ nat (g + 1 - (g - 52)))" using m u by simp
      also have "\<dots> = 2 powi (g + 1)" by (rule two_powi_split [symmetric]) simp
      finally have "q = 2 powi (g + 1)" .
      moreover have "exponent q \<le> g" by (simp add: g_def)
      then have "(2::rat) powi (exponent q + 1) \<le> 2 powi (g + 1)" by (simp only: two_powi_le_iff) 
      ultimately show False using exponent_bounds(2) [OF \<open>q \<noteq> 0\<close>] assms(2) by simp
    qed
    with \<open>m \<le> 2 ^ 53\<close> have "m < 2 ^ 53" by simp
    with Mm M0 have "\<bar>M\<bar> < 2 ^ 53" by simp
    moreover have "- 1074 \<le> g - 52" by (simp add: g_def)
    moreover have "g - 52 \<le> 971" using g52 by simp
    ultimately show ?thesis using eq by (intro is_double_intro [of _ M "g - 52"])
  qed
qed

lemma is_double_remainder:
  assumes "is_double q"
  shows "is_double (remainder q 60)"
proof (cases "0 \<le> q")
  case True
  with assms show ?thesis by (rule is_double_remainder_nonneg)
next
  case False
  then have "0 \<le> - q" by simp
  from is_double_remainder_nonneg [OF is_double_minus [OF assms] this]
  have "is_double (- remainder q 60)" by (simp add: remainder_minus)
  from is_double_minus [OF this] show ?thesis by simp
qed



text \<open>
  C2, as stated, does not hold: \<open>6 * 10^22\<close> is a non-negative input of at least 60 whose
  hours are \<open>10^21\<close>, printed with an exponent, and the result \<open>1e+21h 0m\<close> has not the
  shape \<open>{h}h {m}m\<close> of two decimal numbers.
\<close>

theorem formatDowntime_large_hours:
  "is_double 60000000000000000000000
   \<and> (60::rat) \<le> 60000000000000000000000
   \<and> formatDowntime (Finite 60000000000000000000000) = ''1e+21h 0m''
   \<and> \<not> matches_hm (formatDowntime (Finite 60000000000000000000000))"
  using is_double_6e22 formatDowntime_6e22 not_matches_6e22(1) by simp

text \<open>
  C2, amended: for every non-negative finite input below \<open>6 * 10^22\<close> the result has no
  minus sign, it has the shape \<open>{h}h {m}m\<close> exactly when the input is at least 60, and
  the shape \<open>{m}m\<close> exactly when the input is below 60.
\<close>

theorem formatDowntime_shape:
  assumes "is_double q" and "0 \<le> q" and "q < 60000000000000000000000"
  shows "CHR ''-'' \<notin> set (formatDowntime (Finite q))
    \<and> (matches_hm (formatDowntime (Finite q)) \<longleftrightarrow> 60 \<le> q)
    \<and> (matches_m (formatDowntime (Finite q)) \<longleftrightarrow> q < 60)"
  using assms by (rule formatDowntime_shape_lemma)

theorem formatDowntime_shape_witness:
  "is_double 125 \<and> (0::rat) \<le> 125 \<and> (125::rat) < 60000000000000000000000
    \<and> CHR ''-'' \<notin> set (formatDowntime (Finite 125))
    \<and> matches_hm (formatDowntime (Finite 125)) \<and> \<not> matches_m (formatDowntime (Finite 125))"
proof -
  have d: "is_double 125" using is_double_of_int [of 125] by simp
  have b: "(0::rat) \<le> 125" "(125::rat) < 60000000000000000000000" by simp_all
  have "(60::rat) \<le> 125" "\<not> (125::rat) < 60" by simp_all
  with formatDowntime_shape [OF d b] d b show ?thesis by blast
qed

section \<open>Properties of the retrieval\<close>





section \<open>Properties of the page\<close>

lemma Home_on_failure:
  assumes "getData w = Inl e"
  shows "Home w = Inr (Element ''div'' [(''className'', ''container'')]
            [Element ''div'' [(''className'', ''error'')]
               [Text ''Error loading data: '',
                Text (case e of
                        Exn c message \<Rightarrow> if message \<noteq> [] then message else ''No data available''
                      | NonError \<Rightarrow> ''An error occurred'')]])"
  using assms by (simp add: Home_def truthy_def or_else_def split: js_exn.splits)

lemma getData_malformed:
  "fetch w = Resolved r \<Longrightarrow> ok r \<Longrightarrow> content r = Malformed message \<Longrightarrow>
     getData w = Inl (Exn SyntaxError message)"
  by (simp add: getData_def json_def)

lemma getData_parsed:
  "fetch w = Resolved r \<Longrightarrow> ok r \<Longrightarrow> content r = Parsed v \<Longrightarrow> getData w = Inr v"
  by (simp add: getData_def json_def)

lemma no_table_markup_error_view:
  "no_table_markup (Element ''div'' [(''className'', ''container'')]
     [Element ''div'' [(''className'', ''error'')] [Text a, Text b]])"
  by (simp add: no_table_markup_def table_tags_def)

text \<open>
  C4, as stated, does not hold: with a success status and a body that is not JSON, the
  render pass ends with a rendered error view, not with an exception.
\<close>

theorem malformed_json_caught:
  "Home \<lparr>fetch = Resolved \<lparr>ok = True, content = Malformed ''Unexpected end of JSON input''\<rparr>,
          clock = 0, entropy = 0\<rparr>
   = Inr (Element ''div'' [(''className'', ''container'')]
            [Element ''div'' [(''className'', ''error'')]
               [Text ''Error loading data: '', Text ''Unexpected end of JSON input'']])"
  by (simp add: Home_def getData_def json_def truthy_def or_else_def)

text \<open>
  C4, amended: with a success status and a body that is not JSON, \<open>getData\<close> fails with the
  parser's error, which it does not handle; the \<open>catch\<close> of the page takes it and the error
  view is rendered with the parser's message (\<open>No data available\<close> when that message is
  empty).
\<close>

theorem malformed_json_error_state:
  assumes "fetch w = Resolved r" and "ok r" and "content r = Malformed message"
  shows "getData w = Inl (Exn SyntaxError message)
    \<and> Home w = Inr (Element ''div'' [(''className'', ''container'')]
            [Element ''div'' [(''className'', ''error'')]
               [Text ''Error loading data: '',
                Text (if message \<noteq> [] then message else ''No data available'')]])"
  using getData_malformed [OF assms] Home_on_failure [of w "Exn SyntaxError message"]
  by simp

theorem malformed_json_error_state_witness:
  "getData \<lparr>fetch = Resolved \<lparr>ok = True, content = Malformed ''Unexpected token <''\<rparr>,
          clock = 0, entropy = 0\<rparr> = Inl (Exn SyntaxError ''Unexpected token <'')
   \<and> Home \<lparr>fetch = Resolved \<lparr>ok = True, content = Malformed ''Unexpected token <''\<rparr>,
          clock = 0, entropy = 0\<rparr>
     = Inr (Element ''div'' [(''className'', ''container'')]
            [Element ''div'' [(''className'', ''error'')]
               [Text ''Error loading data: '', Text ''Unexpected token <'']])"
proof -
  let ?r = "\<lparr>ok = True, content = Malformed ''Unexpected token <''\<rparr>"
  let ?w = "\<lparr>fetch = Resolved ?r, clock = 0, entropy = 0\<rparr>"
  have "fetch ?w = Resolved ?r" and "ok ?r" and "content ?r = Malformed ''Unexpected token <''"
    by simp_all
  from malformed_json_error_state [OF this] show ?thesis by simp
qed

text \<open>
  C5: whatever the failure of the retrieval, the page returns the error view: one message
  with the description of the failure (\<open>An error occurred\<close> for a thrown value that is no
  \<open>Error\<close>, \<open>No data available\<close> for an empty message), never empty, in one element of
  class \<open>error\<close>, and no table markup.
\<close>

theorem Home_error_state:
  assumes "getData w = Inl e"
  shows "\<exists>page msg. Home w = Inr page
    \<and> page = Element ''div'' [(''className'', ''container'')]
               [Element ''div'' [(''className'', ''error'')]
                  [Text ''Error loading data: '', Text msg]]
    \<and> msg = (case e of
               Exn c message \<Rightarrow> if message \<noteq> [] then message else ''No data available''
             | NonError \<Rightarrow> ''An error occurred'')
    \<and> msg \<noteq> []
    \<and> no_table_markup page
    \<and> length (by_class ''error'' page) = 1"
proof -
  let ?msg = "case e of
               Exn c message \<Rightarrow> if message \<noteq> [] then message else ''No data available''
             | NonError \<Rightarrow> ''An error occurred''"
  have "?msg \<noteq> []" by (simp split: js_exn.splits)
  then show ?thesis
    using Home_on_failure [OF assms] no_table_markup_error_view by simp
qed

theorem Home_error_state_witness:
  "\<exists>page. Home \<lparr>fetch = Resolved \<lparr>ok = False, content = Parsed None\<rparr>, clock = 0, entropy = 0\<rparr>
       = Inr page
     \<and> page = Element ''div'' [(''className'', ''container'')]
               [Element ''div'' [(''className'', ''error'')]
                  [Text ''Error loading data: '', Text ''Failed to fetch data'']]
     \<and> no_table_markup page"
proof -
  let ?w = "\<lparr>fetch = Resolved \<lparr>ok = False, content = Parsed None\<rparr>, clock = 0, entropy = 0\<rparr>"
  have "getData ?w = Inl (Exn Error ''Failed to fetch data'')" by (simp add: getData_def)
  from Home_error_state [OF this] show ?thesis by simp
qed

lemma length_map_from: "length (map_from i f xs) = length xs"
  by (induction xs arbitrary: i) simp_all

lemma nth_map_from: "k < length xs \<Longrightarrow> map_from i f xs ! k = f (xs ! k) (i + k)"
proof (induction xs arbitrary: i k)
  case Nil
  then show ?case by simp
next
  case (Cons x xs)
  then show ?case by (cases k) simp_all
qed

lemma in_map_from: "r \<in> set (map_from i f xs) \<Longrightarrow> \<exists>x k. r = f x k"
  by (induction xs arbitrary: i) auto

lemma row_by_tag:
  "t \<notin> {''tr'', ''td'', ''a'', ''span''} \<Longrightarrow> by_tag t (validator_row v i) = []"
  by (auto simp: validator_row_def split: option.splits)

lemma row_by_class:
  "c \<notin> {''rank'', ''validator-name'', ''website-link'', ''no-website'', ''downtime'',
         ''incidents''}
   \<Longrightarrow> by_class c (validator_row v i) = []"
  by (auto simp: validator_row_def split: option.splits)

lemma rows_by_tag:
  assumes "t \<notin> {''tr'', ''td'', ''a'', ''span''}"
  shows "concat (map (by_tag t) (map_from i validator_row xs)) = []"
  using assms by (auto dest!: in_map_from simp: row_by_tag)

lemma rows_by_class:
  assumes "c \<notin> {''rank'', ''validator-name'', ''website-link'', ''no-website'', ''downtime'',
         ''incidents''}"
  shows "concat (map (by_class c) (map_from i validator_row xs)) = []"
  using assms by (auto dest!: in_map_from simp: row_by_class)

lemma Home_success_view:
  assumes "getData w = Inr (Some d)"
  shows "\<exists>page. Home w = Inr page
    \<and> by_tag ''tbody'' page = [Element ''tbody'' [] (array_map validator_row (data d))]
    \<and> length (by_tag ''table'' page) = 1
    \<and> by_class ''error'' page = []
    \<and> by_class ''metadata-value'' page =
        [Element ''span'' [(''className'', ''metadata-value'')]
           [Number (total_validators (metadata d))],
         Element ''span'' [(''className'', ''metadata-value'')]
           [Text (time_window (metadata d))],
         Element ''span'' [(''className'', ''metadata-value'')]
           [Text (as_of (metadata d))]]"
  using assms
  by (simp add: Home_def truthy_def array_map_def rows_by_tag rows_by_class)

lemma Home_success_rows:
  assumes "getData w = Inr (Some d)"
  shows "\<exists>page. Home w = Inr page \<and> body_rows page = array_map validator_row (data d)"
  using Home_success_view [OF assms] by (auto simp: body_rows_def)

lemma row_rank_cell:
  "by_class ''rank'' (validator_row v i)
     = [Element ''td'' [(''className'', ''rank'')] [Number (of_nat i + 1)]]"
  by (auto simp: validator_row_def split: option.splits)

lemma row_name_cell:
  "by_class ''validator-name'' (validator_row v i)
     = [Element ''td'' [(''className'', ''validator-name'')] [Text (name v)]]"
  by (auto simp: validator_row_def split: option.splits)

lemma rows_rank_cells:
  "concat (map (by_class ''rank'') (map_from i validator_row xs))
     = map (\<lambda>k. Element ''td'' [(''className'', ''rank'')] [Number (of_nat (i + k) + 1)])
         [0..<length xs]"
proof (induction xs arbitrary: i)
  case Nil
  then show ?case by simp
next
  case (Cons x xs)
  have "map (\<lambda>k. Element ''td'' [(''className'', ''rank'')] [Number (of_nat (i + k) + 1)])
          [0..<Suc (length xs)]
      = Element ''td'' [(''className'', ''rank'')] [Number (of_nat i + 1)]
        # map (\<lambda>k. Element ''td'' [(''className'', ''rank'')] [Number (of_nat (Suc i + k) + 1)])
            [0..<length xs]"
    by (simp add: map_upt_Suc del: upt_Suc)
  with Cons.IH [of "Suc i"] show ?case by (simp add: row_rank_cell del: upt_Suc)
qed

lemma Home_rank_column:
  assumes "getData w = Inr (Some d)"
  shows "\<exists>page. Home w = Inr page
    \<and> body_rows page = array_map validator_row (data d)
    \<and> by_class ''rank'' page
        = map (\<lambda>k. Element ''td'' [(''className'', ''rank'')] [Number (of_nat k + 1)])
            [0..<length (data d)]"
  using assms rows_rank_cells [of 0 "data d"]
  by (simp add: Home_def truthy_def array_map_def rows_by_tag body_rows_def)

text \<open>
  C6: a successful response with an empty \<open>data\<close> sequence renders the table, not the error
  view: one table whose body has no rows, and the three metadata values as received (the
  count as a number, the time window and the timestamp as their strings).
\<close>

theorem empty_data_empty_table:
  assumes "fetch w = Resolved r" and "ok r" and "content r = Parsed (Some d)"
    and "data d = []"
  shows "\<exists>page. Home w = Inr page
    \<and> by_class ''error'' page = []
    \<and> length (by_tag ''table'' page) = 1
    \<and> by_tag ''tbody'' page = [Element ''tbody'' [] []]
    \<and> body_rows page = []
    \<and> by_class ''metadata-value'' page =
        [Element ''span'' [(''className'', ''metadata-value'')]
           [Number (total_validators (metadata d))],
         Element ''span'' [(''className'', ''metadata-value'')]
           [Text (time_window (metadata d))],
         Element ''span'' [(''className'', ''metadata-value'')]
           [Text (as_of (metadata d))]]"
proof -
  have "getData w = Inr (Some d)" using assms(1-3) by (rule getData_parsed)
  from Home_success_view [OF this] obtain page where
    page: "Home w = Inr page"
      "by_tag ''tbody'' page = [Element ''tbody'' [] (array_map validator_row (data d))]"
      "length (by_tag ''table'' page) = 1" "by_class ''error'' page = []"
      "by_class ''metadata-value'' page =
        [Element ''span'' [(''className'', ''metadata-value'')]
           [Number (total_validators (metadata d))],
         Element ''span'' [(''className'', ''metadata-value'')]
           [Text (time_window (metadata d))],
         Element ''span'' [(''className'', ''metadata-value'')]
           [Text (as_of (metadata d))]]"
    by blast
  have "array_map validator_row (data d) = []" using assms(4) by (simp add: array_map_def)
  with page show ?thesis by (simp add: body_rows_def)
qed

theorem empty_data_empty_table_witness:
  "\<exists>page. Home \<lparr>fetch = Resolved \<lparr>ok = True, content = Parsed (Some
        \<lparr>data = [], metadata = \<lparr>total_validators = 7, time_window = ''30 days'',
                                  as_of = ''2025-06-01T00:00:00Z''\<rparr>\<rparr>)\<rparr>,
        clock = 0, entropy = 0\<rparr> = Inr page
    \<and> body_rows page = []
    \<and> by_class ''metadata-value'' page =
        [Element ''span'' [(''className'', ''metadata-value'')] [Number 7],
         Element ''span'' [(''className'', ''metadata-value'')] [Text ''30 days''],
         Element ''span'' [(''className'', ''metadata-value'')]
           [Text ''2025-06-01T00:00:00Z'']]"
proof -
  let ?d = "\<lparr>data = [], metadata = \<lparr>total_validators = 7, time_window = ''30 days'',
                                  as_of = ''2025-06-01T00:00:00Z''\<rparr>\<rparr>"
  let ?r = "\<lparr>ok = True, content = Parsed (Some ?d)\<rparr>"
  let ?w = "\<lparr>fetch = Resolved ?r, clock = 0, entropy = 0\<rparr>"
  have "fetch ?w = Resolved ?r" and "ok ?r" and "content ?r = Parsed (Some ?d)"
    and "data ?d = []"
    by simp_all
  from empty_data_empty_table [OF this] show ?thesis by auto
qed

text \<open>
  C7: a successful response renders one row per validator, in the order received: row \<open>i\<close>
  is the row of the \<open>i\<close>-th validator, with its name, and its rank cell holds \<open>i + 1\<close>
  (counting from zero), whatever the incidents and minutes are. The rank cells of the page
  are \<open>1, 2, ..., n\<close> in document order.
\<close>

theorem rank_is_position:
  assumes "fetch w = Resolved r" and "ok r" and "content r = Parsed (Some d)"
  shows "\<exists>page. Home w = Inr page
    \<and> length (body_rows page) = length (data d)
    \<and> (\<forall>i<length (data d).
          body_rows page ! i = validator_row (data d ! i) i
        \<and> by_class ''rank'' (body_rows page ! i)
            = [Element ''td'' [(''className'', ''rank'')] [Number (of_nat i + 1)]]
        \<and> by_class ''validator-name'' (body_rows page ! i)
            = [Element ''td'' [(''className'', ''validator-name'')]
                 [Text (name (data d ! i))]])
    \<and> by_class ''rank'' page
        = map (\<lambda>k. Element ''td'' [(''className'', ''rank'')] [Number (of_nat k + 1)])
            [0..<length (data d)]"
proof -
  have "getData w = Inr (Some d)" using assms by (rule getData_parsed)
  from Home_rank_column [OF this] obtain page where
    page: "Home w = Inr page" "body_rows page = array_map validator_row (data d)"
      "by_class ''rank'' page
        = map (\<lambda>k. Element ''td'' [(''className'', ''rank'')] [Number (of_nat k + 1)])
            [0..<length (data d)]"
    by blast
  have "length (body_rows page) = length (data d)"
    by (simp add: page(2) array_map_def length_map_from)
  moreover have "body_rows page ! i = validator_row (data d ! i) i"
    if "i < length (data d)" for i
    using that by (simp add: page(2) array_map_def nth_map_from)
  ultimately show ?thesis
    using page(1,3) by (auto simp: row_rank_cell row_name_cell)
qed

theorem rank_is_position_witness:
  "\<exists>page. Home \<lparr>fetch = Resolved \<lparr>ok = True, content = Parsed (Some
        \<lparr>data = [\<lparr>name = ''alpha'', website = None, incidents = 1, minutes = Finite 30\<rparr>,
                 \<lparr>name = ''beta'', website = None, incidents = 9, minutes = Finite 900\<rparr>],
          metadata = \<lparr>total_validators = 2, time_window = ''30 days'', as_of = ''now''\<rparr>\<rparr>)\<rparr>,
        clock = 0, entropy = 0\<rparr> = Inr page
    \<and> length (body_rows page) = 2
    \<and> by_class ''validator-name'' (body_rows page ! 1)
        = [Element ''td'' [(''className'', ''validator-name'')] [Text ''beta'']]
    \<and> by_class ''rank'' (body_rows page ! 1)
        = [Element ''td'' [(''className'', ''rank'')] [Number 2]]
    \<and> by_class ''rank'' page
        = [Element ''td'' [(''className'', ''rank'')] [Number 1],
           Element ''td'' [(''className'', ''rank'')] [Number 2]]"
proof -
  let ?d = "\<lparr>data = [\<lparr>name = ''alpha'', website = None, incidents = 1, minutes = Finite 30\<rparr>,
                 \<lparr>name = ''beta'', website = None, incidents = 9, minutes = Finite 900\<rparr>],
          metadata = \<lparr>total_validators = 2, time_window = ''30 days'', as_of = ''now''\<rparr>\<rparr>"
  let ?r = "\<lparr>ok = True, content = Parsed (Some ?d)\<rparr>"
  let ?w = "\<lparr>fetch = Resolved ?r, clock = 0, entropy = 0\<rparr>"
  have "fetch ?w = Resolved ?r" and "ok ?r" and "content ?r = Parsed (Some ?d)"
    by simp_all
  from rank_is_position [OF this] obtain page where
    page: "Home ?w = Inr page" "length (body_rows page) = length (data ?d)"
      "\<forall>i<length (data ?d).
          body_rows page ! i = validator_row (data ?d ! i) i
        \<and> by_class ''rank'' (body_rows page ! i)
            = [Element ''td'' [(''className'', ''rank'')] [Number (of_nat i + 1)]]
        \<and> by_class ''validator-name'' (body_rows page ! i)
            = [Element ''td'' [(''className'', ''validator-name'')]
                 [Text (name (data ?d ! i))]]"
      "by_class ''rank'' page
        = map (\<lambda>k. Element ''td'' [(''className'', ''rank'')] [Number (of_nat k + 1)])
            [0..<length (data ?d)]"
    by blast
  have "(1::nat) < length (data ?d)" by simp
  with page(3) have
    "by_class ''rank'' (body_rows page ! 1)
       = [Element ''td'' [(''className'', ''rank'')] [Number (of_nat 1 + 1)]]"
    "by_class ''validator-name'' (body_rows page ! 1)
       = [Element ''td'' [(''className'', ''validator-name'')] [Text (name (data ?d ! 1))]]"
    by blast+
  with page(1,2,4) show ?thesis by simp
qed

lemma row_website_cell:
  "children (validator_row v i) ! 2 =
     Element ''td'' []
       [case website v of
          None \<Rightarrow> Element ''span'' [(''className'', ''no-website'')] [Text ''N/A'']
        | Some url \<Rightarrow>
            if url \<noteq> []
            then Element ''a''
                   [(''href'', url), (''target'', ''_blank''),
                    (''rel'', ''noopener noreferrer''), (''className'', ''website-link'')]
                   [Text url]
            else Element ''span'' [(''className'', ''no-website'')] [Text ''N/A'']]"
  by (simp add: validator_row_def)

lemma row_anchors:
  "by_tag ''a'' (validator_row v i) =
     (case website v of
        None \<Rightarrow> []
      | Some url \<Rightarrow>
          if url \<noteq> []
          then [Element ''a''
                  [(''href'', url), (''target'', ''_blank''),
                   (''rel'', ''noopener noreferrer''), (''className'', ''website-link'')]
                  [Text url]]
          else [])"
  by (simp add: validator_row_def split: option.splits)

lemma Home_row:
  assumes "getData w = Inr (Some d)" and "i < length (data d)"
  shows "\<exists>page. Home w = Inr page \<and> body_rows page ! i = validator_row (data d ! i) i"
  using Home_success_rows [OF assms(1)] assms(2)
  by (auto simp: array_map_def nth_map_from)

text \<open>
  C8: the website cell of a validator whose \<open>website\<close> is \<open>null\<close> holds the \<open>N/A\<close> span, and
  the row has no anchor.
\<close>

theorem null_website_placeholder:
  assumes "fetch w = Resolved r" and "ok r" and "content r = Parsed (Some d)"
    and "i < length (data d)" and "website (data d ! i) = None"
  shows "\<exists>page. Home w = Inr page
    \<and> children (body_rows page ! i) ! 2
        = Element ''td'' [] [Element ''span'' [(''className'', ''no-website'')] [Text ''N/A'']]
    \<and> by_tag ''a'' (body_rows page ! i) = []"
proof -
  have "getData w = Inr (Some d)" using assms(1-3) by (rule getData_parsed)
  from Home_row [OF this assms(4)] show ?thesis
    using assms(5) by (auto simp: row_website_cell row_anchors)
qed

theorem null_website_placeholder_witness:
  "\<exists>page. Home \<lparr>fetch = Resolved \<lparr>ok = True, content = Parsed (Some
        \<lparr>data = [\<lparr>name = ''alpha'', website = None, incidents = 1, minutes = Finite 30\<rparr>],
          metadata = \<lparr>total_validators = 1, time_window = ''30 days'', as_of = ''now''\<rparr>\<rparr>)\<rparr>,
        clock = 0, entropy = 0\<rparr> = Inr page
    \<and> children (body_rows page ! 0) ! 2
        = Element ''td'' [] [Element ''span'' [(''className'', ''no-website'')] [Text ''N/A'']]
    \<and> by_tag ''a'' (body_rows page ! 0) = []"
proof -
  let ?d = "\<lparr>data = [\<lparr>name = ''alpha'', website = None, incidents = 1, minutes = Finite 30\<rparr>],
          metadata = \<lparr>total_validators = 1, time_window = ''30 days'', as_of = ''now''\<rparr>\<rparr>"
  let ?r = "\<lparr>ok = True, content = Parsed (Some ?d)\<rparr>"
  let ?w = "\<lparr>fetch = Resolved ?r, clock = 0, entropy = 0\<rparr>"
  have "fetch ?w = Resolved ?r" and "ok ?r" and "content ?r = Parsed (Some ?d)"
    and "0 < length (data ?d)" and "website (data ?d ! 0) = None"
    by simp_all
  from null_website_placeholder [OF this] show ?thesis by simp
qed

text \<open>
  C10: the website cell of a validator whose \<open>website\<close> is the empty string holds the \<open>N/A\<close>
  span as well, and the row has no anchor; a non-empty \<open>website\<close> gives the anchor with that
  address. The branch is on truthiness.
\<close>

theorem empty_website_placeholder:
  assumes "fetch w = Resolved r" and "ok r" and "content r = Parsed (Some d)"
    and "i < length (data d)"
  shows "\<exists>page. Home w = Inr page
    \<and> (website (data d ! i) = Some [] \<longrightarrow>
          children (body_rows page ! i) ! 2
            = Element ''td'' []
                [Element ''span'' [(''className'', ''no-website'')] [Text ''N/A'']]
        \<and> by_tag ''a'' (body_rows page ! i) = [])
    \<and> (\<forall>url. website (data d ! i) = Some url \<and> url \<noteq> [] \<longrightarrow>
          by_tag ''a'' (body_rows page ! i)
            = [Element ''a''
                 [(''href'', url), (''target'', ''_blank''),
                  (''rel'', ''noopener noreferrer''), (''className'', ''website-link'')]
                 [Text url]])"
proof -
  have "getData w = Inr (Some d)" using assms(1-3) by (rule getData_parsed)
  from Home_row [OF this assms(4)] show ?thesis
    by (auto simp: row_website_cell row_anchors)
qed

theorem empty_website_placeholder_witness:
  "\<exists>page. Home \<lparr>fetch = Resolved \<lparr>ok = True, content = Parsed (Some
        \<lparr>data = [\<lparr>name = ''alpha'', website = Some [], incidents = 1, minutes = Finite 30\<rparr>,
                 \<lparr>name = ''beta'', website = Some ''https://beta.io'', incidents = 2,
                    minutes = Finite 90\<rparr>],
          metadata = \<lparr>total_validators = 2, time_window = ''30 days'', as_of = ''now''\<rparr>\<rparr>)\<rparr>,
        clock = 0, entropy = 0\<rparr> = Inr page
    \<and> children (body_rows page ! 0) ! 2
        = Element ''td'' [] [Element ''span'' [(''className'', ''no-website'')] [Text ''N/A'']]
    \<and> by_tag ''a'' (body_rows page ! 0) = []
    \<and> by_tag ''a'' (body_rows page ! 1)
        = [Element ''a''
             [(''href'', ''https://beta.io''), (''target'', ''_blank''),
              (''rel'', ''noopener noreferrer''), (''className'', ''website-link'')]
             [Text ''https://beta.io'']]"
proof -
  let ?d = "\<lparr>data = [\<lparr>name = ''alpha'', website = Some [], incidents = 1, minutes = Finite 30\<rparr>,
                 \<lparr>name = ''beta'', website = Some ''https://beta.io'', incidents = 2,
                    minutes = Finite 90\<rparr>],
          metadata = \<lparr>total_validators = 2, time_window = ''30 days'', as_of = ''now''\<rparr>\<rparr>"
  let ?r = "\<lparr>ok = True, content = Parsed (Some ?d)\<rparr>"
  let ?w = "\<lparr>fetch = Resolved ?r, clock = 0, entropy = 0\<rparr>"
  have success: "fetch ?w = Resolved ?r" "ok ?r" "content ?r = Parsed (Some ?d)"
    by simp_all
  have first: "0 < length (data ?d)" and second: "1 < length (data ?d)"
    by simp_all
  from empty_website_placeholder [OF success first] obtain page where
    page: "Home ?w = Inr page"
      "children (body_rows page ! 0) ! 2
        = Element ''td'' [] [Element ''span'' [(''className'', ''no-website'')] [Text ''N/A'']]"
      "by_tag ''a'' (body_rows page ! 0) = []"
    by auto
  from empty_website_placeholder [OF success second] obtain page' where
    page': "Home ?w = Inr page'"
      "by_tag ''a'' (body_rows page' ! 1)
        = [Element ''a''
             [(''href'', ''https://beta.io''), (''target'', ''_blank''),
              (''rel'', ''noopener noreferrer''), (''className'', ''website-link'')]
             [Text ''https://beta.io'']]"
    by auto
  from page(1) page'(1) have "page' = page" by simp
  with page page'(2) show ?thesis by blast
qed

end
